theory Spec2Isabelle
  imports Main "HOL-Library.Char_ord" "HOL-Library.List_Lexorder" "HOL-Library.Sublist"
begin

section \<open>Texts\<close>

text \<open>
  Python texts are modelled as lists of 8-bit characters, one \<^typ>\<open>char\<close> per code point, so
  the model covers texts over the code points 0 to 255. \<open>len\<close> is \<^const>\<open>length\<close>, and the
  comparison of texts is the lexicographic order on code points, as in Python. A glyph of the
  source outside this range is written as the bytes of its UTF-8 encoding.
\<close>

text \<open>\<open>str(n)\<close> for an integer.\<close>

definition digit_char :: "nat \<Rightarrow> char" where
  "digit_char d = ''0123456789'' ! (d mod 10)"

fun str_nat :: "nat \<Rightarrow> string" where
  "str_nat n = (if n < 10 then [digit_char n] else str_nat (n div 10) @ [digit_char (n mod 10)])"

declare str_nat.simps [simp del]

definition str_int :: "int \<Rightarrow> string" where
  "str_int i = (if i < 0 then CHR ''-'' # str_nat (nat (- i)) else str_nat (nat i))"

text \<open>\<open>sep.join(xs)\<close>.\<close>

fun join :: "string \<Rightarrow> string list \<Rightarrow> string" where
  "join sep [] = []"
| "join sep [x] = x"
| "join sep (x # y # ys) = x @ sep @ join sep (y # ys)"

text \<open>
  \<open>s.find(sub, start)\<close>: the lowest index at or after \<open>start\<close> where \<open>sub\<close> occurs, or \<open>-1\<close>.
  \<open>find_in sub cs i\<close> searches the text \<open>cs\<close> whose first character has index \<open>i\<close>.
\<close>

fun find_in :: "string \<Rightarrow> string \<Rightarrow> nat \<Rightarrow> int" where
  "find_in sub [] i = (if sub = [] then int i else - 1)"
| "find_in sub (c # cs) i = (if prefix sub (c # cs) then int i else find_in sub cs (Suc i))"

definition py_find :: "string \<Rightarrow> string \<Rightarrow> nat \<Rightarrow> int" where
  "py_find s sub start = (if start \<le> length s then find_in sub (drop start s) start else - 1)"

text \<open>\<open>sub in s\<close>.\<close>

definition contains :: "string \<Rightarrow> string \<Rightarrow> bool" where
  "contains sub s = (py_find s sub 0 \<noteq> - 1)"

text \<open>\<open>s.endswith(suf)\<close>.\<close>

definition endswith :: "string \<Rightarrow> string \<Rightarrow> bool" where
  "endswith s suf = suffix suf s"

text \<open>
  \<open>s.strip()\<close>, \<open>s.lstrip(".")\<close>: the white space of \<open>str.isspace\<close> among the code points
  below 256.
\<close>

definition isspace :: "char \<Rightarrow> bool" where
  "isspace c = (c \<in> {CHR 0x09, CHR 0x0A, CHR 0x0B, CHR 0x0C, CHR 0x0D, CHR 0x1C, CHR 0x1D,
     CHR 0x1E, CHR 0x1F, CHR 0x20, CHR 0x85, CHR 0xA0})"

definition lstrip :: "string \<Rightarrow> string" where
  "lstrip s = dropWhile isspace s"

definition rstrip :: "string \<Rightarrow> string" where
  "rstrip s = rev (dropWhile isspace (rev s))"

definition strip :: "string \<Rightarrow> string" where
  "strip s = rstrip (lstrip s)"

definition lstrip_dots :: "string \<Rightarrow> string" where
  "lstrip_dots s = dropWhile (\<lambda>c. c = CHR ''.'') s"

section \<open>Paths\<close>

text \<open>
  A relative path is the text \<open>str(path)\<close>. \<open>PurePosixPath(text).parts\<close> splits it at the
  slashes and drops empty and \<open>.\<close> components.
\<close>

fun split_slash :: "string \<Rightarrow> string \<Rightarrow> string list" where
  "split_slash acc [] = [acc]"
| "split_slash acc (c # cs) =
     (if c = CHR ''/'' then acc # split_slash [] cs else split_slash (acc @ [c]) cs)"

definition path_parts :: "string \<Rightarrow> string list" where
  "path_parts p = filter (\<lambda>c. c \<noteq> [] \<and> c \<noteq> ''.'') (split_slash [] p)"

text \<open>\<open>path.name\<close>: the last component, empty when there is none.\<close>

definition path_name :: "string list \<Rightarrow> string" where
  "path_name parts = (if parts = [] then [] else last parts)"

text \<open>\<open>name.rfind(".")\<close> as the index of the last dot, if any.\<close>

fun rfind_dot :: "string \<Rightarrow> nat option" where
  "rfind_dot [] = None"
| "rfind_dot (c # cs) =
     (case rfind_dot cs of
        Some i \<Rightarrow> Some (Suc i)
      | None \<Rightarrow> if c = CHR ''.'' then Some 0 else None)"

text \<open>
  \<open>Path(p).suffix\<close>: the name from its last dot on, when that dot is neither the first nor
  the last character of the name.
\<close>

definition path_suffix :: "string \<Rightarrow> string" where
  "path_suffix p =
     (let name = path_name (path_parts p) in
      case rfind_dot name of
        None \<Rightarrow> []
      | Some i \<Rightarrow> if 0 < i \<and> i < length name - 1 then drop i name else [])"

section \<open>The file system seen by the collector\<close>

text \<open>
  The collector reads the file system through \<open>root.glob(pattern)\<close>, \<open>is_file()\<close> and
  \<open>read_text(encoding="utf-8")\<close>. A candidate is identified by its path relative to the
  root, which is also the text \<open>str(fp.relative_to(root))\<close>; \<open>read_text\<close> is \<open>None\<close> where
  Python raises \<open>UnicodeDecodeError\<close> or \<open>PermissionError\<close>. \<open>root_parts\<close> are the components
  of the root itself (none for \<open>Path(".")\<close>).
\<close>

record filesystem =
  root_parts :: "string list"
  glob :: "string \<Rightarrow> string list"
  is_file :: "string \<Rightarrow> bool"
  read_text :: "string \<Rightarrow> string option"

definition file_parts :: "filesystem \<Rightarrow> string \<Rightarrow> string list" where
  "file_parts fs rel = root_parts fs @ path_parts rel"

section \<open>Path filter and file collector\<close>

subsection \<open>\<open>core_review.py\<close>\<close>

definition CORE_PATTERNS :: "string list" where
  "CORE_PATTERNS =
     [''src/*.tsx'', ''src/*.ts'', ''src/components/**/*.tsx'', ''src/components/**/*.ts'',
      ''src/stores/**/*.ts'', ''src/hooks/**/*.ts'', ''src/utils/**/*.ts'',
      ''src/types/**/*.ts'', ''src-tauri/src/**/*.rs'', ''src-tauri/*.mjs'', ''src-tauri/*.js'']"

definition SKIP_FILES :: "string set" where
  "SKIP_FILES = {''vite-env.d.ts'', ''auto-imports.d.ts'', ''components.d.ts''}"

definition EXCLUDE_PATTERNS :: "string set" where
  "EXCLUDE_PATTERNS =
     {''node_modules'', ''target'', ''dist'', ''build'', ''.git'', ''__pycache__'', ''.venv'',
      ''venv'', ''.next'', ''.turbo''}"

definition should_include_path :: "string list \<Rightarrow> bool" where
  "should_include_path parts = (\<not> (set parts \<inter> EXCLUDE_PATTERNS \<noteq> {}))"

type_synonym collected = "(string \<times> string) list \<times> string set"

text \<open>
  One iteration of the inner loop of \<open>gather_core_files\<close>; the state is the list \<open>files\<close> and
  the set \<open>seen\<close>.
\<close>

definition visit_core :: "filesystem \<Rightarrow> collected \<Rightarrow> string \<Rightarrow> collected" where
  "visit_core fs st rel =
     (if is_file fs rel \<and> should_include_path (file_parts fs rel) then
        if path_name (file_parts fs rel) \<in> SKIP_FILES then st
        else if rel \<in> snd st then st
        else (case read_text fs rel of
                Some content \<Rightarrow> (fst st @ [(rel, content)], insert rel (snd st))
              | None \<Rightarrow> (fst st, insert rel (snd st)))
      else st)"

definition gather_core_files :: "filesystem \<Rightarrow> (string \<times> string) list" where
  "gather_core_files fs =
     fst (foldl (\<lambda>st pattern. foldl (visit_core fs) st (glob fs pattern)) ([], {}) CORE_PATTERNS)"

subsection \<open>\<open>core_review_v3.py\<close>\<close>

definition EXCLUDE_DIRS_v3 :: "string set" where
  "EXCLUDE_DIRS_v3 = {''node_modules'', ''target'', ''dist'', ''build'', ''.git''}"

definition visit_v3 :: "filesystem \<Rightarrow> collected \<Rightarrow> string \<Rightarrow> collected" where
  "visit_v3 fs st rel =
     (if \<not> is_file fs rel then st
      else if set (file_parts fs rel) \<inter> EXCLUDE_DIRS_v3 \<noteq> {} then st
      else if path_name (file_parts fs rel) \<in> SKIP_FILES then st
      else if rel \<in> snd st then st
      else (case read_text fs rel of
              Some content \<Rightarrow> (fst st @ [(rel, content)], insert rel (snd st))
            | None \<Rightarrow> (fst st, insert rel (snd st))))"

definition gather_files_v3 :: "filesystem \<Rightarrow> (string \<times> string) list" where
  "gather_files_v3 fs =
     sort_key fst
       (fst (foldl (\<lambda>st pattern. foldl (visit_v3 fs) st (glob fs pattern)) ([], {}) CORE_PATTERNS))"

subsection \<open>\<open>review_standalone.py\<close>\<close>

definition SKIP_FILES_standalone :: "string set" where
  "SKIP_FILES_standalone =
     {''vite-env.d.ts'', ''auto-imports.d.ts'', ''components.d.ts'', ''__pycache__''}"

definition EXCLUDE_DIRS_standalone :: "string set" where
  "EXCLUDE_DIRS_standalone =
     {''node_modules'', ''target'', ''dist'', ''build'', ''.git'', ''__pycache__'', ''.venv'',
      ''venv''}"

definition visit_standalone :: "filesystem \<Rightarrow> collected \<Rightarrow> string \<Rightarrow> collected" where
  "visit_standalone fs st rel =
     (if \<not> is_file fs rel then st
      else if set (file_parts fs rel) \<inter> EXCLUDE_DIRS_standalone \<noteq> {} then st
      else if path_name (file_parts fs rel) \<in> SKIP_FILES_standalone then st
      else if rel \<in> snd st then st
      else (case read_text fs rel of
              Some content \<Rightarrow> (fst st @ [(rel, content)], insert rel (snd st))
            | None \<Rightarrow> (fst st, insert rel (snd st))))"

definition gather_unsorted_standalone :: "filesystem \<Rightarrow> string list \<Rightarrow> collected" where
  "gather_unsorted_standalone fs patterns =
     foldl (\<lambda>st pattern. foldl (visit_standalone fs) st (glob fs pattern)) ([], {}) patterns"

definition gather_files :: "filesystem \<Rightarrow> string list \<Rightarrow> (string \<times> string) list" where
  "gather_files fs patterns = sort_key fst (fst (gather_unsorted_standalone fs patterns))"

subsection \<open>\<open>laozhang_codebase_review.py\<close>\<close>





section \<open>Model caller\<close>

text \<open>
  An exception is a value. \<open>TransportError\<close> stands for any \<open>Exception\<close> raised inside the
  \<open>try\<close> block by \<open>client.chat.completions.create\<close> or by reading the reply (time-out, rate
  limit, malformed reply); its text names it.
\<close>

datatype exn = TransportError string | JSONDecodeError | KeyError string | RecursionError

text \<open>
  The remote endpoint: \<open>client prompt n\<close> is what the call number \<open>n\<close> (counting from 0) of
  this run does, either raising or yielding \<open>response.choices[0].message.content\<close>.
\<close>

type_synonym client = "string \<Rightarrow> nat \<Rightarrow> exn + string"

text \<open>
  \<open>REVIEW_PROMPT.format(content=content)\<close>: the template is the pair of the fixed instruction
  texts before and after the placeholder.
\<close>

type_synonym template = "string \<times> string"

definition format_prompt :: "template \<Rightarrow> string \<Rightarrow> string" where
  "format_prompt tmpl content = fst tmpl @ content @ snd tmpl"

definition MAX_RETRIES :: nat where
  "MAX_RETRIES = 3"

text \<open>
  What a run of the caller leaves behind: its result (\<open>Inl\<close> the exception that reaches the
  caller, \<open>Inr None\<close> when the \<open>for\<close> loop ends without \<open>return\<close>), the number of calls
  made to the endpoint and the arguments of \<open>time.sleep\<close> in order.
\<close>

record 'a run =
  result :: "exn + 'a option"
  calls :: nat
  sleeps :: "nat list"

text \<open>
  The loop \<open>for attempt in range(1, MAX_RETRIES + 1)\<close> with its \<open>try\<close>/\<open>except Exception\<close>;
  \<open>body n\<close> is the \<open>try\<close> block at the call number \<open>n\<close>.
\<close>

fun attempts :: "(nat \<Rightarrow> exn + 'a) \<Rightarrow> nat list \<Rightarrow> nat \<Rightarrow> nat list \<Rightarrow> 'a run" where
  "attempts body [] n slept = \<lparr>result = Inr None, calls = n, sleeps = slept\<rparr>"
| "attempts body (attempt # rest) n slept =
     (case body n of
        Inr v \<Rightarrow> \<lparr>result = Inr (Some v), calls = Suc n, sleeps = slept\<rparr>
      | Inl e \<Rightarrow>
          if attempt < MAX_RETRIES then attempts body rest (Suc n) (slept @ [2 ^ attempt])
          else \<lparr>result = Inl e, calls = Suc n, sleeps = slept\<rparr>)"

text \<open>\<open>review_code\<close> of \<open>core_review.py\<close>.\<close>

definition review_code :: "client \<Rightarrow> template \<Rightarrow> string \<Rightarrow> string run" where
  "review_code client REVIEW_PROMPT content =
     attempts (client (format_prompt REVIEW_PROMPT content)) [1..<MAX_RETRIES + 1] 0 []"

text \<open>\<open>review_diff\<close> of \<open>laozhang_review.py\<close>: one call, outside any \<open>try\<close>.\<close>

definition review_diff :: "client \<Rightarrow> template \<Rightarrow> string \<Rightarrow> string run" where
  "review_diff client REVIEW_PROMPT diff =
     \<lparr>result = map_sum id Some (client (format_prompt REVIEW_PROMPT diff) 0), calls = 1,
      sleeps = []\<rparr>"

section \<open>Auxiliary notions for the collector\<close>

text \<open>
  The loop bodies of the three deduplicating collectors differ only in the excluded
  directories and the skip list; \<open>visit_with\<close> is their common shape, \<open>collectible\<close> the
  test a candidate passes before the \<open>seen\<close> set is consulted, \<open>first_wins\<close> the candidates
  in order without those seen before, and \<open>entries\<close> the pairs of the candidates that decode.
\<close>

definition visit_with :: "string set \<Rightarrow> string set \<Rightarrow> filesystem \<Rightarrow> collected \<Rightarrow> string \<Rightarrow> collected" where
  "visit_with ex skip fs st rel =
     (if \<not> is_file fs rel then st
      else if set (file_parts fs rel) \<inter> ex \<noteq> {} then st
      else if path_name (file_parts fs rel) \<in> skip then st
      else if rel \<in> snd st then st
      else (case read_text fs rel of
              Some content \<Rightarrow> (fst st @ [(rel, content)], insert rel (snd st))
            | None \<Rightarrow> (fst st, insert rel (snd st))))"

definition collectible :: "string set \<Rightarrow> string set \<Rightarrow> filesystem \<Rightarrow> string \<Rightarrow> bool" where
  "collectible ex skip fs rel =
     (is_file fs rel \<and> set (file_parts fs rel) \<inter> ex = {} \<and> path_name (file_parts fs rel) \<notin> skip)"

fun first_wins :: "string set \<Rightarrow> string list \<Rightarrow> string list" where
  "first_wins seen [] = []"
| "first_wins seen (x # xs) =
     (if x \<in> seen then first_wins seen xs else x # first_wins (insert x seen) xs)"

definition entries :: "filesystem \<Rightarrow> string list \<Rightarrow> (string \<times> string) list" where
  "entries fs rels = List.map_filter (\<lambda>rel. map_option (Pair rel) (read_text fs rel)) rels"

text \<open>A small file system: a file literally named \<open>build\<close>, and two sources.\<close>

definition example_fs :: filesystem where
  "example_fs =
     \<lparr>root_parts = [],
      glob = (\<lambda>pattern.
        if pattern = ''src/*'' then [''src/build'', ''src/b.ts'', ''src/a.ts'']
        else if pattern = ''src/*.ts'' then [''src/a.ts'', ''src/b.ts'']
        else if pattern = ''src/*.tsx'' then []
        else if pattern = ''**/*.ts'' then [''src/b.ts'', ''src/a.ts'', ''lib/bin.ts'']
        else []),
      is_file = (\<lambda>rel. True),
      read_text = (\<lambda>rel.
        if rel = ''src/a.ts'' then Some ''X''
        else if rel = ''src/b.ts'' then Some ''Y''
        else if rel = ''src/build'' then Some ''Z''
        else None)\<rparr>"


text \<open>Two endpoints: one that fails twice and then answers, one that always fails.\<close>

definition flaky_client :: client where
  "flaky_client prompt n = (if n < 2 then Inl (TransportError ''APITimeoutError'') else Inr ''LGTM'')"

definition dead_client :: client where
  "dead_client prompt n = Inl (TransportError (''attempt '' @ str_nat (Suc n)))"

section \<open>Content budgeter\<close>

subsection \<open>Plain rendering (\<open>core_review.py\<close>)\<close>

text \<open>The language hint \<open>{"ts": "typescript", "tsx": "tsx", "rs": "rust"}.get(ext.lstrip("."), "")\<close>.\<close>

definition lang_hint :: "string \<Rightarrow> string" where
  "lang_hint path =
     (let ext = lstrip_dots (path_suffix path) in
      if ext = ''ts'' then ''typescript''
      else if ext = ''tsx'' then ''tsx''
      else if ext = ''rs'' then ''rust''
      else [])"

definition file_block :: "string \<Rightarrow> string \<Rightarrow> string" where
  "file_block path content =
     ''### '' @ path @ ''\<newline>```'' @ lang_hint path @ ''\<newline>'' @ content @ ''\<newline>```\<newline>\<newline>''"

definition truncation_marker :: "int \<Rightarrow> string" where
  "truncation_marker remaining = ''\<newline>... (truncated: '' @ str_int remaining @ '' more files)''"

text \<open>
  The loop over the sorted files; \<open>n_files\<close> is \<open>len(files)\<close>, \<open>parts\<close> the list of texts
  appended so far and \<open>current_size\<close> the running size.
\<close>

fun format_loop :: "(string \<times> string) list \<Rightarrow> nat \<Rightarrow> int \<Rightarrow> string list \<Rightarrow> int \<Rightarrow> string list" where
  "format_loop [] n_files max_size parts current_size = parts"
| "format_loop ((path, content) # rest) n_files max_size parts current_size =
     (let block_size = int (length (file_block path content)) in
      if current_size + block_size > max_size then
        parts @ [truncation_marker (int n_files - int (length parts))]
      else format_loop rest n_files max_size (parts @ [file_block path content])
             (current_size + block_size))"

definition format_files :: "(string \<times> string) list \<Rightarrow> int \<Rightarrow> string" where
  "format_files files max_size =
     (let sorted_files = sort_key fst files in
      concat (format_loop sorted_files (length sorted_files) max_size [] 0))"

subsection \<open>Annotated rendering (\<open>core_review_v3.py\<close>)\<close>

definition lang_v3 :: "string \<Rightarrow> string" where
  "lang_v3 path =
     (let ext = lstrip_dots (path_suffix path) in
      if ext = ''ts'' then ''typescript''
      else if ext = ''tsx'' then ''tsx''
      else if ext = ''rs'' then ''rust''
      else if ext = ''mjs'' then ''javascript''
      else if ext = ''js'' then ''javascript''
      else ext)"

text \<open>
  \<open>len(content.splitlines())\<close>: a line ends at a line boundary (\<open>\r\n\<close> counts once) or at
  the end of a non-empty rest. \<open>pending\<close> tells whether the current line has characters.
\<close>

definition is_linebreak :: "char \<Rightarrow> bool" where
  "is_linebreak c = (c \<in> {CHR 0x0A, CHR 0x0B, CHR 0x0C, CHR 0x0D, CHR 0x1C, CHR 0x1D, CHR 0x1E,
     CHR 0x85})"

fun count_lines :: "bool \<Rightarrow> string \<Rightarrow> nat" where
  "count_lines pending [] = (if pending then 1 else 0)"
| "count_lines pending [c] = 1"
| "count_lines pending (c # d # cs) =
     (if c = CHR 0x0D \<and> d = CHR 0x0A then Suc (count_lines False cs)
      else if is_linebreak c then Suc (count_lines False (d # cs))
      else count_lines True (d # cs))"

definition splitlines_len :: "string \<Rightarrow> nat" where
  "splitlines_len content = count_lines False content"

definition dq :: string where
  "dq = [CHR 0x22]"

definition manifest_line :: "nat \<Rightarrow> string \<Rightarrow> string \<Rightarrow> string" where
  "manifest_line idx path content =
     ''  <file index='' @ dq @ str_nat idx @ dq @ '' path='' @ dq @ path @ dq @ '' lang='' @ dq @
     lang_v3 path @ dq @ '' lines='' @ dq @ str_nat (splitlines_len content) @ dq @ '' />''"

fun manifest_lines :: "nat \<Rightarrow> (string \<times> string) list \<Rightarrow> string list" where
  "manifest_lines idx [] = []"
| "manifest_lines idx ((path, content) # rest) =
     manifest_line idx path content # manifest_lines (Suc idx) rest"

definition manifest :: "(string \<times> string) list \<Rightarrow> string" where
  "manifest files =
     join ''\<newline>'' ([''<file_manifest>''] @ manifest_lines 1 files @ [''</file_manifest>\<newline>''])"

definition component :: "string \<Rightarrow> string" where
  "component path =
     (if contains ''commands'' path then ''backend-command''
      else if contains ''src-tauri'' path \<and> endswith path ''.rs'' then ''backend-core''
      else if contains ''src-tauri'' path \<and> (endswith path ''.mjs'' \<or> endswith path ''.js'')
        then ''bridge''
      else if contains ''components'' path then ''frontend-component''
      else if contains ''hooks'' path then ''frontend-hook''
      else if contains ''stores'' path then ''frontend-store''
      else ''frontend-core'')"

definition block_v3 :: "nat \<Rightarrow> nat \<Rightarrow> string \<Rightarrow> string \<Rightarrow> string" where
  "block_v3 idx total_files path content =
     ''\<newline><file index='' @ dq @ str_nat idx @ dq @ '' total='' @ dq @ str_nat total_files @ dq @
     ''>\<newline>  <metadata>\<newline>    <path>'' @ path @ ''</path>\<newline>    <language>'' @ lang_v3 path @
     ''</language>\<newline>    <component>'' @ component path @ ''</component>\<newline>    <lines>'' @
     str_nat (splitlines_len content) @ ''</lines>\<newline>    <characters>'' @
     str_nat (length content) @ ''</characters>\<newline>  </metadata>\<newline>  <content>\<newline>'' @ content @
     ''\<newline>  </content>\<newline></file>\<newline>''"

definition marker_v3 :: "int \<Rightarrow> string" where
  "marker_v3 remaining = ''\<newline>... truncated ('' @ str_int remaining @ '' files remaining)''"

fun format_loop_v3 ::
  "(string \<times> string) list \<Rightarrow> nat \<Rightarrow> nat \<Rightarrow> int \<Rightarrow> string list \<Rightarrow> int \<Rightarrow> string list" where
  "format_loop_v3 [] idx n_files max_size parts cur_size = parts"
| "format_loop_v3 ((path, content) # rest) idx n_files max_size parts cur_size =
     (let block = block_v3 idx n_files path content in
      if cur_size + int (length block) > max_size then
        parts @ [marker_v3 (int n_files - int (length parts))]
      else format_loop_v3 rest (Suc idx) n_files max_size (parts @ [block])
             (cur_size + int (length block)))"

definition format_files_v3 :: "(string \<times> string) list \<Rightarrow> int \<Rightarrow> string" where
  "format_files_v3 files max_size =
     concat (format_loop_v3 files 1 (length files) max_size [manifest files]
       (int (length (manifest files))))"

subsection \<open>Annotated rendering (\<open>review_standalone.py\<close>)\<close>

definition lang_standalone :: "string \<Rightarrow> string" where
  "lang_standalone path =
     (let ext = lstrip_dots (path_suffix path) in
      if ext = ''ts'' then ''typescript''
      else if ext = ''tsx'' then ''tsx''
      else if ext = ''rs'' then ''rust''
      else if ext = ''mjs'' then ''javascript''
      else if ext = ''js'' then ''javascript''
      else if ext = ''py'' then ''python''
      else ext)"

definition manifest_line_standalone :: "nat \<Rightarrow> string \<Rightarrow> string \<Rightarrow> string" where
  "manifest_line_standalone idx path content =
     ''  <file index='' @ dq @ str_nat idx @ dq @ '' path='' @ dq @ path @ dq @ '' lang='' @ dq @
     lang_standalone path @ dq @ '' lines='' @ dq @ str_nat (splitlines_len content) @ dq @ '' />''"

fun manifest_lines_standalone :: "nat \<Rightarrow> (string \<times> string) list \<Rightarrow> string list" where
  "manifest_lines_standalone idx [] = []"
| "manifest_lines_standalone idx ((path, content) # rest) =
     manifest_line_standalone idx path content # manifest_lines_standalone (Suc idx) rest"

definition manifest_standalone :: "(string \<times> string) list \<Rightarrow> string" where
  "manifest_standalone files =
     join ''\<newline>''
       ([''<file_manifest>''] @ manifest_lines_standalone 1 files @ [''</file_manifest>\<newline>''])"

definition block_standalone :: "nat \<Rightarrow> nat \<Rightarrow> string \<Rightarrow> string \<Rightarrow> string" where
  "block_standalone idx n_files path content =
     ''\<newline><file index='' @ dq @ str_nat idx @ dq @ '' total='' @ dq @ str_nat n_files @ dq @
     ''>\<newline>  <metadata>\<newline>    <path>'' @ path @ ''</path>\<newline>    <language>'' @
     lang_standalone path @ ''</language>\<newline>    <lines>'' @
     str_nat (splitlines_len content) @ ''</lines>\<newline>    <characters>'' @
     str_nat (length content) @ ''</characters>\<newline>  </metadata>\<newline>  <content>\<newline>'' @ content @
     ''\<newline>  </content>\<newline></file>\<newline>''"

fun format_loop_standalone ::
  "(string \<times> string) list \<Rightarrow> nat \<Rightarrow> nat \<Rightarrow> int \<Rightarrow> string list \<Rightarrow> int \<Rightarrow> string list" where
  "format_loop_standalone [] idx n_files max_size parts cur_size = parts"
| "format_loop_standalone ((path, content) # rest) idx n_files max_size parts cur_size =
     (let block = block_standalone idx n_files path content in
      if cur_size + int (length block) > max_size then
        parts @ [marker_v3 (int n_files - int idx + 1)]
      else format_loop_standalone rest (Suc idx) n_files max_size (parts @ [block])
             (cur_size + int (length block)))"

definition format_files_standalone :: "(string \<times> string) list \<Rightarrow> int \<Rightarrow> string" where
  "format_files_standalone files max_size =
     concat (format_loop_standalone files 1 (length files) max_size [manifest_standalone files]
       (int (length (manifest_standalone files))))"

subsection \<open>Auxiliary notions for the budgeter\<close>

text \<open>The blocks of a list of files in each rendering, and the size of a list of texts.\<close>

definition blocks :: "(string \<times> string) list \<Rightarrow> string list" where
  "blocks files = map (\<lambda>(path, content). file_block path content) files"

fun blocks_v3 :: "nat \<Rightarrow> nat \<Rightarrow> (string \<times> string) list \<Rightarrow> string list" where
  "blocks_v3 idx n_files [] = []"
| "blocks_v3 idx n_files ((path, content) # rest) =
     block_v3 idx n_files path content # blocks_v3 (Suc idx) n_files rest"

definition total_len :: "string list \<Rightarrow> int" where
  "total_len bs = (\<Sum>b\<leftarrow>bs. int (length b))"

text \<open>Two files whose plain blocks are 50 characters each, given in reverse order.\<close>

definition two_files :: "(string \<times> string) list" where
  "two_files = [(''b.ts'', replicate 21 CHR ''Y''), (''a.ts'', replicate 21 CHR ''X'')]"

section \<open>Report renderer\<close>

text \<open>
  The renderer is modelled on reviews whose fields are all present and are texts (the risk
  score an integer), so that the look-ups \<open>review[...]\<close> and \<open>item[...]\<close> succeed; the
  optional \<open>line_hint\<close> may be absent. The enum fields are texts, as in the parsed JSON, so a
  value outside the enum can occur.
\<close>

record improvement =
  imp_id :: string
  imp_file :: string
  line_hint :: "string option"
  severity :: string
  category :: string
  title :: string
  problem :: string
  solution :: string
  effort :: string

record review =
  improvements :: "improvement list"
  architecture_notes :: string
  security_posture :: string
  top_priority :: string
  risk_score :: int

text \<open>
  \<open>str.title()\<close>: a cased character is upper case after an uncased one and lower case after a
  cased one. Casing is that of the ASCII letters; the other characters count as uncased.
\<close>

definition is_lower :: "char \<Rightarrow> bool" where
  "is_lower c = (CHR ''a'' \<le> c \<and> c \<le> CHR ''z'')"

definition is_upper :: "char \<Rightarrow> bool" where
  "is_upper c = (CHR ''A'' \<le> c \<and> c \<le> CHR ''Z'')"

definition to_upper :: "char \<Rightarrow> char" where
  "to_upper c = (if is_lower c then char_of (of_char c - (32::nat)) else c)"

definition to_lower :: "char \<Rightarrow> char" where
  "to_lower c = (if is_upper c then char_of (of_char c + (32::nat)) else c)"

fun title_from :: "bool \<Rightarrow> string \<Rightarrow> string" where
  "title_from prev_cased [] = []"
| "title_from prev_cased (c # cs) =
     (if is_lower c \<or> is_upper c then
        (if prev_cased then to_lower c else to_upper c) # title_from True cs
      else c # title_from False cs)"

definition py_title :: "string \<Rightarrow> string" where
  "py_title s = title_from False s"

text \<open>The format \<open>{n:,}\<close>: decimal digits in groups of three.\<close>

fun group3 :: "string \<Rightarrow> string" where
  "group3 (a # b # c # d # rest) = a # b # c # CHR '','' # group3 (d # rest)"
| "group3 digits = digits"

definition commas :: "int \<Rightarrow> string" where
  "commas i =
     (if i < 0 then CHR ''-'' # rev (group3 (rev (str_nat (nat (- i)))))
      else rev (group3 (rev (str_nat (nat i)))))"

text \<open>The glyphs of the templates, as UTF-8.\<close>

definition icon_critical :: string where "icon_critical = [CHR 0xF0, CHR 0x9F, CHR 0x94, CHR 0xB4]"

definition icon_high :: string where "icon_high = [CHR 0xF0, CHR 0x9F, CHR 0x9F, CHR 0xA0]"

definition icon_medium :: string where "icon_medium = [CHR 0xF0, CHR 0x9F, CHR 0x9F, CHR 0xA1]"

definition icon_low :: string where "icon_low = [CHR 0xF0, CHR 0x9F, CHR 0x9F, CHR 0xA2]"

definition icon_lock :: string where "icon_lock = [CHR 0xF0, CHR 0x9F, CHR 0x94, CHR 0x92]"

definition icon_bolt :: string where "icon_bolt = [CHR 0xE2, CHR 0x9A, CHR 0xA1]"

definition icon_sparkles :: string where "icon_sparkles = [CHR 0xE2, CHR 0x9C, CHR 0xA8]"

definition icon_crane :: string where
  "icon_crane = [CHR 0xF0, CHR 0x9F, CHR 0x8F, CHR 0x97, CHR 0xEF, CHR 0xB8, CHR 0x8F]"

definition icon_wrench :: string where "icon_wrench = [CHR 0xF0, CHR 0x9F, CHR 0x94, CHR 0xA7]"

definition icon_pin :: string where "icon_pin = [CHR 0xF0, CHR 0x9F, CHR 0x93, CHR 0x8C]"

definition icon_glass :: string where "icon_glass = [CHR 0xF0, CHR 0x9F, CHR 0x94, CHR 0x8D]"

definition icon_chart :: string where "icon_chart = [CHR 0xF0, CHR 0x9F, CHR 0x93, CHR 0x8A]"

definition icon_clipboard :: string where "icon_clipboard = [CHR 0xF0, CHR 0x9F, CHR 0x93, CHR 0x8B]"

definition middle_dot :: string where "middle_dot = [CHR 0xC2, CHR 0xB7]"

definition severity_icons :: "string \<rightharpoonup> string" where
  "severity_icons =
     [''critical'' \<mapsto> icon_critical, ''high'' \<mapsto> icon_high, ''medium'' \<mapsto> icon_medium,
      ''low'' \<mapsto> icon_low]"

definition category_icons :: "string \<rightharpoonup> string" where
  "category_icons =
     [''security'' \<mapsto> icon_lock, ''performance'' \<mapsto> icon_bolt, ''quality'' \<mapsto> icon_sparkles,
      ''architecture'' \<mapsto> icon_crane, ''maintainability'' \<mapsto> icon_wrench]"

definition effort_labels :: "string \<rightharpoonup> string" where
  "effort_labels =
     [''trivial'' \<mapsto> ''~1h'', ''small'' \<mapsto> ''~4h'', ''medium'' \<mapsto> ''~1d'', ''large'' \<mapsto> ''~1w'']"

text \<open>
  The dictionary \<open>by_severity\<close> and the loop that fills it:
  \<open>by_severity[item["severity"]].append(item)\<close> raises \<open>KeyError\<close> for a key that is not there.
\<close>

type_synonym buckets = "string \<rightharpoonup> improvement list"

definition empty_buckets :: buckets where
  "empty_buckets = [''critical'' \<mapsto> [], ''high'' \<mapsto> [], ''medium'' \<mapsto> [], ''low'' \<mapsto> []]"

fun fill_buckets :: "buckets \<Rightarrow> improvement list \<Rightarrow> exn + buckets" where
  "fill_buckets by_severity [] = Inr by_severity"
| "fill_buckets by_severity (item # rest) =
     (case by_severity (severity item) of
        None \<Rightarrow> Inl (KeyError (severity item))
      | Some items \<Rightarrow> fill_buckets (by_severity(severity item \<mapsto> items @ [item])) rest)"

text \<open>\<open>d[key]\<close>.\<close>

definition lookup :: "(string \<rightharpoonup> 'a) \<Rightarrow> string \<Rightarrow> exn + 'a" where
  "lookup d key = (case d key of None \<Rightarrow> Inl (KeyError key) | Some v \<Rightarrow> Inr v)"

subsection \<open>\<open>format_issue_body\<close> of \<open>core_review_v3.py\<close>\<close>

definition item_lines_v3 :: "improvement \<Rightarrow> string list" where
  "item_lines_v3 item =
     (let cat_icon = (case category_icons (category item) of None \<Rightarrow> icon_pin | Some i \<Rightarrow> i);
          effort = (case effort_labels (effort item) of None \<Rightarrow> effort item | Some l \<Rightarrow> l)
      in [''- [ ] **`'' @ imp_id item @ ''`** '' @ title item,
          ''  - '' @ cat_icon @ '' '' @ py_title (category item) @ '' '' @ middle_dot @ '' `'' @
            imp_file item @ ''` '' @ middle_dot @ '' '' @ effort,
          ''  - **Problem:** '' @ problem item,
          ''  - **Solution:** '' @ solution item,
          ''''])"

text \<open>The loop \<open>for severity in ["critical", "high", "medium", "low"]\<close>.\<close>

fun sections_v3 :: "buckets \<Rightarrow> string list \<Rightarrow> string list \<Rightarrow> exn + string list" where
  "sections_v3 by_severity [] lines = Inr lines"
| "sections_v3 by_severity (sev # rest) lines =
     (case lookup by_severity sev of
        Inl e \<Rightarrow> Inl e
      | Inr items \<Rightarrow>
          if items = [] then sections_v3 by_severity rest lines
          else (case lookup severity_icons sev of
                  Inl e \<Rightarrow> Inl e
                | Inr icon \<Rightarrow>
                    sections_v3 by_severity rest
                      (lines @
                       [''#### '' @ icon @ '' '' @ py_title sev @ '' ('' @ str_nat (length items) @ '')'',
                        ''''] @
                       concat (map item_lines_v3 items))))"

definition count_of :: "buckets \<Rightarrow> string \<Rightarrow> string" where
  "count_of by_severity sev = (case by_severity sev of None \<Rightarrow> [] | Some items \<Rightarrow> str_nat (length items))"

definition header_v3 :: "string \<Rightarrow> review \<Rightarrow> int \<Rightarrow> int \<Rightarrow> buckets \<Rightarrow> string list" where
  "header_v3 model r file_count char_count by_severity =
     [''## '' @ icon_glass @ '' Structured Codebase Review'',
      '''',
      ''**Scope:** '' @ str_int file_count @ '' files ('' @ commas char_count @ '' characters)'',
      ''**Model:** '' @ model,
      ''**Risk Score:** '' @ str_int (risk_score r) @ ''/100'',
      '''',
      ''---'',
      '''',
      ''### '' @ icon_chart @ '' Summary'',
      '''',
      ''| Critical | High | Medium | Low |'',
      ''|:--------:|:----:|:------:|:---:|'',
      ''| '' @ count_of by_severity ''critical'' @ '' | '' @ count_of by_severity ''high'' @ '' | '' @
        count_of by_severity ''medium'' @ '' | '' @ count_of by_severity ''low'' @ '' |'',
      '''',
      ''**Top Priority:** '' @ top_priority r,
      '''',
      ''---'',
      '''',
      ''### '' @ icon_crane @ '' Architecture'',
      '''',
      architecture_notes r,
      '''',
      ''### '' @ icon_lock @ '' Security Posture'',
      '''',
      security_posture r,
      '''',
      ''---'',
      '''',
      ''### '' @ icon_clipboard @ '' Improvements'',
      '''']"

definition footer_v3 :: "string \<Rightarrow> string list" where
  "footer_v3 model =
     [''---'', '''',
      ''*Automated review powered by LaoZhang API ('' @ model @ '') with structured output*'']"

definition format_issue_body_lines :: "string \<Rightarrow> review \<Rightarrow> int \<Rightarrow> int \<Rightarrow> exn + string list" where
  "format_issue_body_lines model r file_count char_count =
     (case fill_buckets empty_buckets (improvements r) of
        Inl e \<Rightarrow> Inl e
      | Inr by_severity \<Rightarrow>
          (case sections_v3 by_severity [''critical'', ''high'', ''medium'', ''low'']
                  (header_v3 model r file_count char_count by_severity) of
             Inl e \<Rightarrow> Inl e
           | Inr lines \<Rightarrow> Inr (lines @ footer_v3 model)))"

definition format_issue_body :: "string \<Rightarrow> review \<Rightarrow> int \<Rightarrow> int \<Rightarrow> exn + string" where
  "format_issue_body model r file_count char_count =
     map_sum id (join ''\<newline>'') (format_issue_body_lines model r file_count char_count)"

subsection \<open>\<open>format_markdown\<close> of \<open>review_standalone.py\<close>\<close>

definition item_lines_standalone :: "improvement \<Rightarrow> string list" where
  "item_lines_standalone item =
     (let effort = (case effort_labels (effort item) of None \<Rightarrow> effort item | Some l \<Rightarrow> l)
      in [''- [ ] **'' @ imp_id item @ ''**: '' @ title item,
          ''  - File: `'' @ imp_file item @ ''` ('' @
            (case line_hint item of None \<Rightarrow> [] | Some h \<Rightarrow> h) @ '')'',
          ''  - Category: '' @ category item @ '' | Effort: '' @ effort,
          ''  - **Problem:** '' @ problem item,
          ''  - **Solution:** '' @ solution item,
          ''''])"

fun sections_standalone :: "buckets \<Rightarrow> string list \<Rightarrow> string list \<Rightarrow> exn + string list" where
  "sections_standalone by_severity [] lines = Inr lines"
| "sections_standalone by_severity (sev # rest) lines =
     (case lookup by_severity sev of
        Inl e \<Rightarrow> Inl e
      | Inr items \<Rightarrow>
          if items = [] then sections_standalone by_severity rest lines
          else (case lookup severity_icons sev of
                  Inl e \<Rightarrow> Inl e
                | Inr icon \<Rightarrow>
                    sections_standalone by_severity rest
                      (lines @
                       [''### '' @ icon @ '' '' @ py_title sev @ '' ('' @ str_nat (length items) @ '')'',
                        ''''] @
                       concat (map item_lines_standalone items))))"

definition header_standalone :: "review \<Rightarrow> string list" where
  "header_standalone r =
     [''# Code Review'',
      '''',
      ''**Risk Score:** '' @ str_int (risk_score r) @ ''/100'',
      '''',
      ''## Summary'',
      '''',
      ''**Top Priority:** '' @ top_priority r,
      '''',
      ''### Architecture'',
      architecture_notes r,
      '''',
      ''### Security Posture'',
      security_posture r,
      '''',
      ''## Improvements'',
      '''']"

definition format_markdown_lines :: "review \<Rightarrow> exn + string list" where
  "format_markdown_lines r =
     (case fill_buckets empty_buckets (improvements r) of
        Inl e \<Rightarrow> Inl e
      | Inr by_severity \<Rightarrow>
          sections_standalone by_severity [''critical'', ''high'', ''medium'', ''low'']
            (header_standalone r))"

definition format_markdown :: "review \<Rightarrow> exn + string" where
  "format_markdown r = map_sum id (join ''\<newline>'') (format_markdown_lines r)"

text \<open>A review with improvements of the severities low, critical, high, critical.\<close>

definition imp :: "string \<Rightarrow> string \<Rightarrow> string \<Rightarrow> string \<Rightarrow> improvement" where
  "imp i sev cat eff =
     \<lparr>imp_id = i, imp_file = ''src/main.rs'', line_hint = None, severity = sev, category = cat,
      title = ''T-'' @ i, problem = ''P-'' @ i, solution = ''S-'' @ i, effort = eff\<rparr>"

definition sample_review :: review where
  "sample_review =
     \<lparr>improvements =
        [imp ''A'' ''low'' ''quality'' ''trivial'', imp ''B'' ''critical'' ''security'' ''small'',
         imp ''C'' ''high'' ''performance'' ''medium'', imp ''D'' ''critical'' ''quality'' ''large''],
      architecture_notes = ''notes'', security_posture = ''posture'', top_priority = ''B first'',
      risk_score = 65\<rparr>"

definition odd_review :: review where
  "odd_review =
     \<lparr>improvements = [imp ''Z'' ''low'' ''compliance'' ''huge''],
      architecture_notes = ''notes'', security_posture = ''posture'', top_priority = ''none'',
      risk_score = 150\<rparr>"

definition urgent_review :: review where
  "urgent_review =
     \<lparr>improvements = [imp ''A'' ''low'' ''quality'' ''small'', imp ''U'' ''urgent'' ''quality'' ''small''],
      architecture_notes = ''notes'', security_posture = ''posture'', top_priority = ''none'',
      risk_score = 10\<rparr>"

subsection \<open>Grouping, in the words of the specification\<close>

text \<open>
  The severities in the order of the report, the improvements of one severity in their
  original order, and the section of one severity: nothing for an empty group, else a heading
  with the size of the group, an empty line and the lines of each improvement.
\<close>

definition SEVERITIES :: "string list" where
  "SEVERITIES = [''critical'', ''high'', ''medium'', ''low'']"

definition group_of :: "string \<Rightarrow> improvement list \<Rightarrow> improvement list" where
  "group_of sev items = filter (\<lambda>item. severity item = sev) items"

definition buckets_of :: "improvement list \<Rightarrow> buckets" where
  "buckets_of items = (\<lambda>sev. if sev \<in> set SEVERITIES then Some (group_of sev items) else None)"

definition section_v3 :: "improvement list \<Rightarrow> string \<Rightarrow> string list" where
  "section_v3 items sev =
     (if group_of sev items = [] then []
      else [''#### '' @ the (severity_icons sev) @ '' '' @ py_title sev @ '' ('' @
              str_nat (length (group_of sev items)) @ '')'', []] @
           concat (map item_lines_v3 (group_of sev items)))"

definition section_standalone :: "improvement list \<Rightarrow> string \<Rightarrow> string list" where
  "section_standalone items sev =
     (if group_of sev items = [] then []
      else [''### '' @ the (severity_icons sev) @ '' '' @ py_title sev @ '' ('' @
              str_nat (length (group_of sev items)) @ '')'', []] @
           concat (map item_lines_standalone (group_of sev items)))"

section \<open>JSON values and the library functions \<open>json.loads\<close> and \<open>json.dumps\<close>\<close>

text \<open>
  The texts inside a parsed JSON document are lists of code points, since an escape
  \<open>\uXXXX\<close> of an 8-bit input text can denote any character; \<open>u\<close> turns a text of the
  model into such a list. A Python \<open>dict\<close> is the list of its items in insertion order. A
  number with a fraction or an exponent, \<open>NaN\<close> and the infinities are floats; \<open>JFloat\<close>
  keeps the text of the number, which determines the Python value.
\<close>

type_synonym utext = "nat list"

definition u :: "string \<Rightarrow> utext" where
  "u s = map of_char s"

datatype json =
    JNull
  | JBool bool
  | JInt int
  | JFloat string
  | JString utext
  | JArray "json list"
  | JObject "(utext \<times> json) list"

definition is_ws :: "char \<Rightarrow> bool" where
  "is_ws c = (c = CHR '' '' \<or> c = CHR 0x09 \<or> c = CHR 0x0A \<or> c = CHR 0x0D)"

definition skip_ws :: "string \<Rightarrow> string" where
  "skip_ws s = dropWhile is_ws s"

definition is_digit :: "char \<Rightarrow> bool" where
  "is_digit c = (CHR ''0'' \<le> c \<and> c \<le> CHR ''9'')"

definition digit_val :: "char \<Rightarrow> nat" where
  "digit_val c = of_char c - 48"

definition nat_of_digits :: "string \<Rightarrow> nat" where
  "nat_of_digits ds = foldl (\<lambda>a d. 10 * a + digit_val d) 0 ds"

definition hex_val :: "char \<Rightarrow> nat option" where
  "hex_val c =
     (if is_digit c then Some (of_char c - 48)
      else if CHR ''a'' \<le> c \<and> c \<le> CHR ''f'' then Some (of_char c - 87)
      else if CHR ''A'' \<le> c \<and> c \<le> CHR ''F'' then Some (of_char c - 55)
      else None)"

definition hex4 :: "char \<Rightarrow> char \<Rightarrow> char \<Rightarrow> char \<Rightarrow> nat option" where
  "hex4 a b c d =
     (case (hex_val a, hex_val b, hex_val c, hex_val d) of
        (Some x, Some y, Some z, Some w) \<Rightarrow> Some (((x * 16 + y) * 16 + z) * 16 + w)
      | _ \<Rightarrow> None)"

text \<open>The one-letter escapes of a JSON string.\<close>

definition unescape :: "char \<Rightarrow> nat option" where
  "unescape e =
     (if e = CHR 0x22 then Some 0x22
      else if e = CHR 0x5C then Some 0x5C
      else if e = CHR ''/'' then Some 0x2F
      else if e = CHR ''b'' then Some 0x08
      else if e = CHR ''f'' then Some 0x0C
      else if e = CHR ''n'' then Some 0x0A
      else if e = CHR ''r'' then Some 0x0D
      else if e = CHR ''t'' then Some 0x09
      else None)"

text \<open>
  A high surrogate followed by the escape of a low surrogate is one code point; \<open>low_escape\<close>
  reads that second escape at the start of a text: \<open>None\<close> if there is no \<open>\u\<close>, else the
  four hexadecimal digits (an exception if they are not) and the rest.
\<close>

definition low_escape :: "string \<Rightarrow> (exn + nat \<times> string) option" where
  "low_escape s =
     (case s of
        b # c # rest \<Rightarrow>
          if b = CHR 0x5C \<and> c = CHR ''u'' then
            (case rest of
               h1 # h2 # h3 # h4 # rest' \<Rightarrow>
                 (case hex4 h1 h2 h3 h4 of
                    None \<Rightarrow> Some (Inl JSONDecodeError)
                  | Some uni2 \<Rightarrow> Some (Inr (uni2, rest')))
             | _ \<Rightarrow> Some (Inl JSONDecodeError))
          else None
      | _ \<Rightarrow> None)"

text \<open>
  \<open>scanstring\<close> after the opening quote, in strict mode: the text up to the closing quote with
  its escapes decoded, and the rest.
\<close>

function scan_string :: "string \<Rightarrow> utext \<Rightarrow> exn + utext \<times> string" where
  "scan_string [] acc = Inl JSONDecodeError"
| "scan_string (c # cs) acc =
     (if c = CHR 0x22 then Inr (acc, cs)
      else if c = CHR 0x5C then
        (case cs of
           [] \<Rightarrow> Inl JSONDecodeError
         | e # es \<Rightarrow>
             if e = CHR ''u'' then
               (case es of
                  h1 # h2 # h3 # h4 # rest \<Rightarrow>
                    (case hex4 h1 h2 h3 h4 of
                       None \<Rightarrow> Inl JSONDecodeError
                     | Some uni \<Rightarrow>
                         if 0xD800 \<le> uni \<and> uni \<le> 0xDBFF then
                           (case low_escape rest of
                              None \<Rightarrow> scan_string rest (acc @ [uni])
                            | Some (Inl err) \<Rightarrow> Inl err
                            | Some (Inr (uni2, rest')) \<Rightarrow>
                                if 0xDC00 \<le> uni2 \<and> uni2 \<le> 0xDFFF
                                then scan_string (drop 6 rest)
                                       (acc @ [0x10000 + (uni - 0xD800) * 1024 + (uni2 - 0xDC00)])
                                else scan_string rest (acc @ [uni]))
                         else scan_string rest (acc @ [uni]))
                | _ \<Rightarrow> Inl JSONDecodeError)
             else
               (case unescape e of
                  None \<Rightarrow> Inl JSONDecodeError
                | Some ch \<Rightarrow> scan_string es (acc @ [ch])))
      else if (of_char c :: nat) < 32 then Inl JSONDecodeError
      else scan_string cs (acc @ [of_char c]))"
  by pat_completeness auto

termination
  by (relation "measure (\<lambda>(s, acc). length s)") auto

text \<open>
  The number pattern \<open>(-?(?:0|[1-9]\d*))(\.\d+)?([eE][-+]?\d+)?\<close> at the start of a text:
  the digits of the integer part and the rest, then the fraction and the exponent.
\<close>

definition int_part :: "string \<Rightarrow> (string \<times> string) option" where
  "int_part s =
     (case s of
        [] \<Rightarrow> None
      | c # cs \<Rightarrow>
          if c = CHR ''0'' then Some ([c], cs)
          else if is_digit c then Some (takeWhile is_digit s, dropWhile is_digit s)
          else None)"

definition frac_part :: "string \<Rightarrow> string" where
  "frac_part s =
     (case s of
        c # d # _ \<Rightarrow> if c = CHR ''.'' \<and> is_digit d then c # takeWhile is_digit (tl s) else []
      | _ \<Rightarrow> [])"

definition exp_part :: "string \<Rightarrow> string" where
  "exp_part s =
     (case s of
        c # d # ds \<Rightarrow>
          if c = CHR ''e'' \<or> c = CHR ''E'' then
            (if is_digit d then c # takeWhile is_digit (d # ds)
             else if (d = CHR ''+'' \<or> d = CHR ''-'') \<and> ds \<noteq> [] \<and> is_digit (hd ds)
               then c # d # takeWhile is_digit ds
             else [])
          else []
      | _ \<Rightarrow> [])"

definition match_number :: "string \<Rightarrow> (json \<times> string) option" where
  "match_number s =
     (let neg = (s \<noteq> [] \<and> hd s = CHR ''-'');
          body = (if neg then tl s else s)
      in case int_part body of
           None \<Rightarrow> None
         | Some (ds, rest) \<Rightarrow>
             (let frac = frac_part rest;
                  ex = exp_part (drop (length frac) rest)
              in if frac = [] \<and> ex = [] then
                   Some (JInt (if neg then - int (nat_of_digits ds) else int (nat_of_digits ds)), rest)
                 else
                   Some (JFloat ((if neg then ''-'' else []) @ ds @ frac @ ex),
                         drop (length frac + length ex) rest)))"

text \<open>\<open>dict(pairs)\<close>: a later pair with a key already there replaces the value in place.\<close>

fun dict_update :: "utext \<Rightarrow> json \<Rightarrow> (utext \<times> json) list \<Rightarrow> (utext \<times> json) list" where
  "dict_update k v [] = [(k, v)]"
| "dict_update k v ((k', v') # kvs) =
     (if k = k' then (k, v) # kvs else (k', v') # dict_update k v kvs)"

definition dict_of :: "(utext \<times> json) list \<Rightarrow> (utext \<times> json) list" where
  "dict_of pairs = foldl (\<lambda>d (k, v). dict_update k v d) [] pairs"

text \<open>
  The scanner. \<open>scan_once\<close> reads one value at the start of the text; \<open>scan_members\<close> is the
  loop of \<open>JSONObject\<close> from the character after the opening quote of a key, with the pairs
  read so far; \<open>scan_elements\<close> is the loop of \<open>JSONArray\<close> from the start of an element. The
  first argument bounds the number of nested calls; \<open>json_loads\<close> gives it twice the length
  of the text plus one, which is never used up (lemma \<open>json_loads_fuel\<close>), so the limit that
  Python puts on the depth of recursion is not part of the model.
\<close>

fun scan_once :: "nat \<Rightarrow> string \<Rightarrow> exn + json \<times> string"
  and scan_members :: "nat \<Rightarrow> (utext \<times> json) list \<Rightarrow> string \<Rightarrow> exn + json \<times> string"
  and scan_elements :: "nat \<Rightarrow> json list \<Rightarrow> string \<Rightarrow> exn + json \<times> string" where
  "scan_once 0 s = Inl RecursionError"
| "scan_once (Suc n) s =
     (case s of
        [] \<Rightarrow> Inl JSONDecodeError
      | c # cs \<Rightarrow>
          if c = CHR 0x22 then
            (case scan_string cs [] of
               Inl e \<Rightarrow> Inl e
             | Inr (str, rest) \<Rightarrow> Inr (JString str, rest))
          else if c = CHR ''{'' then
            (case skip_ws cs of
               [] \<Rightarrow> Inl JSONDecodeError
             | d # ds \<Rightarrow>
                 if d = CHR ''}'' then Inr (JObject [], ds)
                 else if d = CHR 0x22 then scan_members n [] ds
                 else Inl JSONDecodeError)
          else if c = CHR ''['' then
            (case skip_ws cs of
               [] \<Rightarrow> Inl JSONDecodeError
             | d # ds \<Rightarrow>
                 if d = CHR '']'' then Inr (JArray [], ds)
                 else scan_elements n [] (d # ds))
          else if prefix ''null'' s then Inr (JNull, drop 4 s)
          else if prefix ''true'' s then Inr (JBool True, drop 4 s)
          else if prefix ''false'' s then Inr (JBool False, drop 5 s)
          else (case match_number s of
                  Some r \<Rightarrow> Inr r
                | None \<Rightarrow>
                    if prefix ''NaN'' s then Inr (JFloat ''NaN'', drop 3 s)
                    else if prefix ''Infinity'' s then Inr (JFloat ''Infinity'', drop 8 s)
                    else if prefix ''-Infinity'' s then Inr (JFloat ''-Infinity'', drop 9 s)
                    else Inl JSONDecodeError))"
| "scan_members 0 pairs s = Inl RecursionError"
| "scan_members (Suc n) pairs s =
     (case scan_string s [] of
        Inl e \<Rightarrow> Inl e
      | Inr (key, s2) \<Rightarrow>
          (case skip_ws s2 of
             [] \<Rightarrow> Inl JSONDecodeError
           | c # s3 \<Rightarrow>
               if c \<noteq> CHR '':'' then Inl JSONDecodeError
               else
                 (case scan_once n (skip_ws s3) of
                    Inl e \<Rightarrow> Inl e
                  | Inr (v, s5) \<Rightarrow>
                      (case skip_ws s5 of
                         [] \<Rightarrow> Inl JSONDecodeError
                       | d # s6 \<Rightarrow>
                           if d = CHR ''}'' then Inr (JObject (dict_of (pairs @ [(key, v)])), s6)
                           else if d \<noteq> CHR '','' then Inl JSONDecodeError
                           else
                             (case skip_ws s6 of
                                [] \<Rightarrow> Inl JSONDecodeError
                              | q # s7 \<Rightarrow>
                                  if q = CHR 0x22 then scan_members n (pairs @ [(key, v)]) s7
                                  else Inl JSONDecodeError)))))"
| "scan_elements 0 vals s = Inl RecursionError"
| "scan_elements (Suc n) vals s =
     (case scan_once n s of
        Inl e \<Rightarrow> Inl e
      | Inr (v, s2) \<Rightarrow>
          (case skip_ws s2 of
             [] \<Rightarrow> Inl JSONDecodeError
           | d # s3 \<Rightarrow>
               if d = CHR '']'' then Inr (JArray (vals @ [v]), s3)
               else if d \<noteq> CHR '','' then Inl JSONDecodeError
               else scan_elements n (vals @ [v]) (skip_ws s3)))"

text \<open>\<open>json.loads\<close>: one value between optional white space, and nothing after it.\<close>

definition json_loads :: "string \<Rightarrow> exn + json" where
  "json_loads s =
     (case scan_once (2 * length s + 1) (skip_ws s) of
        Inl e \<Rightarrow> Inl e
      | Inr (v, rest) \<Rightarrow> if skip_ws rest = [] then Inr v else Inl JSONDecodeError)"

text \<open>
  \<open>json.dumps\<close> with its defaults: separators \<open>", "\<close> and \<open>": "\<close>, and every character
  outside the printable ASCII range escaped, one above \<open>0xFFFF\<close> as a surrogate pair. The
  formatting of floats is not modelled: the text kept by \<open>JFloat\<close> is written as it is.
\<close>

definition hex_digit :: "nat \<Rightarrow> char" where
  "hex_digit d = ''0123456789abcdef'' ! (d mod 16)"

definition escape_u :: "nat \<Rightarrow> string" where
  "escape_u n =
     [CHR 0x5C, CHR ''u'', hex_digit (n div 4096), hex_digit (n div 256), hex_digit (n div 16),
      hex_digit n]"

definition escape_char :: "nat \<Rightarrow> string" where
  "escape_char c =
     (if c = 0x22 then [CHR 0x5C, CHR 0x22]
      else if c = 0x5C then [CHR 0x5C, CHR 0x5C]
      else if c = 0x0A then [CHR 0x5C, CHR ''n'']
      else if c = 0x0D then [CHR 0x5C, CHR ''r'']
      else if c = 0x09 then [CHR 0x5C, CHR ''t'']
      else if c = 0x08 then [CHR 0x5C, CHR ''b'']
      else if c = 0x0C then [CHR 0x5C, CHR ''f'']
      else if c < 32 \<or> c > 126 then
        (if c < 0x10000 then escape_u c
         else escape_u (0xD800 + (c - 0x10000) div 1024 mod 1024) @
              escape_u (0xDC00 + (c - 0x10000) mod 1024))
      else [char_of c])"

definition encode_string :: "utext \<Rightarrow> string" where
  "encode_string s = [CHR 0x22] @ concat (map escape_char s) @ [CHR 0x22]"

fun json_dumps :: "json \<Rightarrow> string" where
  "json_dumps JNull = ''null''"
| "json_dumps (JBool b) = (if b then ''true'' else ''false'')"
| "json_dumps (JInt i) = str_int i"
| "json_dumps (JFloat lexeme) = lexeme"
| "json_dumps (JString s) = encode_string s"
| "json_dumps (JArray vs) = ''['' @ join '', '' (map json_dumps vs) @ '']''"
| "json_dumps (JObject kvs) =
     ''{'' @ join '', '' (map (\<lambda>(k, v). encode_string k @ '': '' @ json_dumps v) kvs) @ ''}''"

section \<open>Response extractor\<close>

text \<open>
  \<open>re.sub(r'<think>.*?</think>', '', raw, flags=re.DOTALL)\<close>: from left to right, each
  \<open><think>\<close> that has a \<open></think>\<close> after it is removed up to the first such \<open></think>\<close>.
\<close>

function strip_think :: "string \<Rightarrow> string" where
  "strip_think [] = []"
| "strip_think (c # cs) =
     (if prefix ''<think>'' (c # cs) \<and> find_in ''</think>'' (drop 7 (c # cs)) 0 \<noteq> - 1
      then strip_think (drop (7 + nat (find_in ''</think>'' (drop 7 (c # cs)) 0) + 8) (c # cs))
      else c # strip_think cs)"
  by pat_completeness auto

termination
  by (relation "measure length") auto

text \<open>\<open>content[start:end]\<close> for \<open>0 \<le> start\<close>.\<close>

definition slice :: "string \<Rightarrow> nat \<Rightarrow> int \<Rightarrow> string" where
  "slice s start end = take (nat end - start) (drop start s)"

text \<open>The interior of the first fenced block, if the text has one.\<close>

definition unfence :: "string \<Rightarrow> string" where
  "unfence content =
     (if contains ''```json'' content then
        (let start = nat (py_find content ''```json'' 0) + 7;
             end = py_find content ''```'' start
         in if end > int start then strip (slice content start end) else content)
      else if contains ''```'' content then
        (let start = nat (py_find content ''```'' 0) + 3;
             end = py_find content ''```'' start
         in if end > int start then strip (slice content start end) else content)
      else content)"

text \<open>\<open>content[json_start:]\<close> when the text does not start with a brace but has one.\<close>

definition seek_brace :: "string \<Rightarrow> string" where
  "seek_brace content =
     (if \<not> prefix ''{'' content then
        (let json_start = py_find content ''{'' 0
         in if json_start \<noteq> - 1 then drop (nat json_start) content else content)
      else content)"

text \<open>
  The loop over \<open>enumerate(content)\<close> with the brace counter: \<open>end_pos\<close>, the index after the
  first closing brace that brings the depth to zero, or 0 if there is none.
\<close>

fun scan_depth :: "string \<Rightarrow> int \<Rightarrow> nat \<Rightarrow> nat" where
  "scan_depth [] depth i = 0"
| "scan_depth (c # cs) depth i =
     (if c = CHR ''{'' then scan_depth cs (depth + 1) (Suc i)
      else if c = CHR ''}'' then
        (if depth - 1 = 0 then Suc i else scan_depth cs (depth - 1) (Suc i))
      else scan_depth cs depth (Suc i))"

definition cut_at_match :: "string \<Rightarrow> string" where
  "cut_at_match content =
     (if prefix ''{'' content then
        (let end_pos = scan_depth content 0 0
         in if end_pos > 0 then take end_pos content else content)
      else content)"

text \<open>The text that is handed to \<open>json.loads\<close>, and the extraction as a whole.\<close>

definition isolate_json :: "string \<Rightarrow> string" where
  "isolate_json raw = cut_at_match (seek_brace (unfence (strip (strip_think raw))))"

definition extract_json :: "string \<Rightarrow> exn + json" where
  "extract_json raw = json_loads (isolate_json raw)"

section \<open>Structured review: the model caller with the extractor\<close>

text \<open>
  The \<open>try\<close> block of \<open>review_code\<close> in \<open>core_review_v3.py\<close> and \<open>review_standalone.py\<close>: the
  call to the endpoint followed by the extraction, both inside the same \<open>try\<close>.
\<close>

definition try_extract :: "client \<Rightarrow> string \<Rightarrow> nat \<Rightarrow> exn + json" where
  "try_extract client prompt n =
     (case client prompt n of Inl e \<Rightarrow> Inl e | Inr raw \<Rightarrow> extract_json raw)"

text \<open>\<open>review_code\<close> of \<open>core_review_v3.py\<close>, with the handler \<open>except Exception\<close>.\<close>

definition review_code_v3 :: "client \<Rightarrow> template \<Rightarrow> string \<Rightarrow> json run" where
  "review_code_v3 client REVIEW_PROMPT content =
     attempts (try_extract client (format_prompt REVIEW_PROMPT content)) [1..<MAX_RETRIES + 1] 0 []"

text \<open>
  \<open>review_code\<close> of \<open>review_standalone.py\<close>: the handlers \<open>except json.JSONDecodeError\<close> and
  \<open>except Exception\<close> have the same body, so the loop is the same.
\<close>

definition review_code_standalone :: "client \<Rightarrow> template \<Rightarrow> string \<Rightarrow> json run" where
  "review_code_standalone client REVIEW_PROMPT content =
     attempts (try_extract client (format_prompt REVIEW_PROMPT content)) [1..<MAX_RETRIES + 1] 0 []"

text \<open>An endpoint that answers with the texts of a list in turn and times out after them.\<close>

definition replies :: "string list \<Rightarrow> client" where
  "replies texts prompt n =
     (if n < length texts then Inr (texts ! n) else Inl (TransportError ''APITimeoutError''))"

definition good_reply :: string where
  "good_reply = ''{'' @ dq @ ''risk_score'' @ dq @ '': 65}''"

text \<open>What may follow a value inside a document written by \<open>json_dumps\<close>.\<close>

definition stop :: "string \<Rightarrow> bool" where
  "stop rest = (rest = [] \<or> hd rest = CHR '','' \<or> hd rest = CHR '']'' \<or> hd rest = CHR ''}'')"

text \<open>
  The documents for which writing and reading back is studied: no floats, the texts over the
  code points below 256, and the keys of every object distinct.
\<close>

fun plain :: "json \<Rightarrow> bool" where
  "plain JNull = True"
| "plain (JBool b) = True"
| "plain (JInt i) = True"
| "plain (JFloat lexeme) = False"
| "plain (JString s) = list_all (\<lambda>c. c < 256) s"
| "plain (JArray vs) = list_all plain vs"
| "plain (JObject kvs) =
     (distinct (map fst kvs) \<and> list_all (\<lambda>c. c < 256) (concat (map fst kvs)) \<and>
      list_all plain (map snd kvs))"

text \<open>The text of a member after the opening quote of its key.\<close>

definition mtext :: "utext \<times> json \<Rightarrow> string" where
  "mtext kv = concat (map escape_char (fst kv)) @ [CHR 0x22] @ '': '' @ json_dumps (snd kv)"

definition value_head :: "char \<Rightarrow> bool" where
  "value_head c = (is_digit c \<or> c \<in> {CHR ''-'', CHR ''n'', CHR ''t'', CHR ''f'', CHR 0x22, CHR ''['', CHR ''{''})"

text \<open>The reply of the round trip: a think block, prose, and the document in a fence.\<close>

definition fenced :: "string \<Rightarrow> string" where
  "fenced s = ''```json\<newline>'' @ s @ ''\<newline>```''"

definition wrapped :: "string \<Rightarrow> string \<Rightarrow> string \<Rightarrow> string" where
  "wrapped think prose s = ''<think>'' @ think @ ''</think>'' @ prose @ fenced s"

text \<open>
  The characters that the isolation of the extractor looks for: the braces counted by the
  depth scan, the backtick of a fence and the opening of a \<open><think>\<close> tag. A document is
  \<open>inert\<close> when none of its texts, keys included, holds one of them.
\<close>

definition marks :: "char set" where
  "marks = {CHR ''{'', CHR ''}'', CHR 0x60, CHR ''<''}"

definition quiet :: "nat \<Rightarrow> bool" where
  "quiet c = (c \<noteq> 0x7B \<and> c \<noteq> 0x7D \<and> c \<noteq> 0x60 \<and> c \<noteq> 0x3C)"

fun inert :: "json \<Rightarrow> bool" where
  "inert JNull = True"
| "inert (JBool b) = True"
| "inert (JInt i) = True"
| "inert (JFloat lexeme) = list_all (\<lambda>c. quiet (of_char c)) lexeme"
| "inert (JString s) = list_all quiet s"
| "inert (JArray vs) = list_all inert vs"
| "inert (JObject kvs) =
     (list_all quiet (concat (map fst kvs)) \<and> list_all inert (map snd kvs))"

text \<open>
  The serialization of a \<open>ReviewResult\<close>: a JSON object with the keys of \<open>REVIEW_SCHEMA\<close> in
  their order, the optional \<open>line_hint\<close> left out when the improvement has none.
\<close>

definition improvement_json :: "improvement \<Rightarrow> json" where
  "improvement_json item =
     JObject
       ([(u ''id'', JString (u (imp_id item))), (u ''file'', JString (u (imp_file item)))] @
        (case line_hint item of None \<Rightarrow> [] | Some h \<Rightarrow> [(u ''line_hint'', JString (u h))]) @
        [(u ''severity'', JString (u (severity item))),
         (u ''category'', JString (u (category item))),
         (u ''title'', JString (u (title item))),
         (u ''problem'', JString (u (problem item))),
         (u ''solution'', JString (u (solution item))),
         (u ''effort'', JString (u (effort item)))])"

definition review_json :: "review \<Rightarrow> json" where
  "review_json r =
     JObject
       [(u ''improvements'', JArray (map improvement_json (improvements r))),
        (u ''architecture_notes'', JString (u (architecture_notes r))),
        (u ''security_posture'', JString (u (security_posture r))),
        (u ''top_priority'', JString (u (top_priority r))),
        (u ''risk_score'', JInt (risk_score r))]"

text \<open>A review none of whose texts holds a brace, a backtick or a less-than sign.\<close>

definition calm :: "string \<Rightarrow> bool" where
  "calm s = list_all (\<lambda>c. c \<notin> marks) s"

definition calm_improvement :: "improvement \<Rightarrow> bool" where
  "calm_improvement item =
     (calm (imp_id item) \<and> calm (imp_file item) \<and>
      (case line_hint item of None \<Rightarrow> True | Some h \<Rightarrow> calm h) \<and>
      calm (severity item) \<and> calm (category item) \<and> calm (title item) \<and>
      calm (problem item) \<and> calm (solution item) \<and> calm (effort item))"

definition calm_review :: "review \<Rightarrow> bool" where
  "calm_review r =
     (list_all calm_improvement (improvements r) \<and> calm (architecture_notes r) \<and>
      calm (security_posture r) \<and> calm (top_priority r))"

text \<open>Two well-formed reviews without improvements, one with a closing brace in a text.\<close>

definition terse_review :: review where
  "terse_review =
     \<lparr>improvements = [], architecture_notes = ''ok'', security_posture = ''ok'',
      top_priority = ''none'', risk_score = 10\<rparr>"

definition brace_review :: review where
  "brace_review =
     \<lparr>improvements = [], architecture_notes = ''ok'', security_posture = ''ok'',
      top_priority = ''fix }'', risk_score = 10\<rparr>"

text \<open>
  A reply that is a JSON object but no \<open>ReviewResult\<close>: a severity outside the enumeration, a
  risk score above 100 and most of the required fields missing.
\<close>

definition urgent_reply :: string where
  "urgent_reply =
     ''{'' @ dq @ ''improvements'' @ dq @ '': [{'' @ dq @ ''id'' @ dq @ '': '' @ dq @ ''U'' @ dq @
     '', '' @ dq @ ''severity'' @ dq @ '': '' @ dq @ ''urgent'' @ dq @ ''}], '' @
     dq @ ''risk_score'' @ dq @ '': 150}''"

definition urgent_json :: json where
  "urgent_json =
     JObject
       [(u ''improvements'',
         JArray [JObject [(u ''id'', JString (u ''U'')), (u ''severity'', JString (u ''urgent''))]]),
        (u ''risk_score'', JInt 150)]"

section \<open>Properties\<close>

lemma visit_core_eq: "visit_core fs = visit_with EXCLUDE_PATTERNS SKIP_FILES fs"
  by (auto simp: visit_core_def visit_with_def should_include_path_def fun_eq_iff)

lemma visit_v3_eq: "visit_v3 fs = visit_with EXCLUDE_DIRS_v3 SKIP_FILES fs"
  by (auto simp: visit_v3_def visit_with_def fun_eq_iff)

lemma visit_standalone_eq: "visit_standalone fs = visit_with EXCLUDE_DIRS_standalone SKIP_FILES_standalone fs"
  by (auto simp: visit_standalone_def visit_with_def fun_eq_iff)

lemma entries_append: "entries fs (xs @ ys) = entries fs xs @ entries fs ys"
  by (induction xs) (auto simp: entries_def List.map_filter_simps split: option.splits)

lemma entries_Nil [simp]: "entries fs [] = []"
  by (simp add: entries_def List.map_filter_simps)

lemma visit_with_step:
  "visit_with ex skip fs st r =
     (if collectible ex skip fs r \<and> r \<notin> snd st then (fst st @ entries fs [r], insert r (snd st))
      else st)"
  by (cases "read_text fs r")
     (simp_all add: visit_with_def collectible_def entries_def List.map_filter_simps)

lemma foldl_visit_with:
  "foldl (visit_with ex skip fs) st rels =
     (fst st @ entries fs (first_wins (snd st) (filter (collectible ex skip fs) rels)),
      snd st \<union> set (filter (collectible ex skip fs) rels))"
proof (induction rels arbitrary: st)
  case Nil
  then show ?case by (simp add: entries_def List.map_filter_simps)
next
  case (Cons r rels)
  have e: "entries fs (r # xs) = (case read_text fs r of None \<Rightarrow> entries fs xs | Some c \<Rightarrow> (r, c) # entries fs xs)" for xs
    by (simp add: entries_def List.map_filter_simps split: option.splits)
  let ?st = "visit_with ex skip fs st r"
  have "foldl (visit_with ex skip fs) st (r # rels) = foldl (visit_with ex skip fs) ?st rels"
    by simp
  also have "\<dots> = (fst ?st @ entries fs (first_wins (snd ?st) (filter (collectible ex skip fs) rels)),
      snd ?st \<union> set (filter (collectible ex skip fs) rels))"
    by (rule Cons)
  also have "\<dots> = (fst st @ entries fs (first_wins (snd st) (filter (collectible ex skip fs) (r # rels))),
      snd st \<union> set (filter (collectible ex skip fs) (r # rels)))"
    by (auto simp: visit_with_step e insert_absorb split: option.splits)
  finally show ?case .
qed

lemma first_wins_append:
  "first_wins seen (xs @ ys) = first_wins seen xs @ first_wins (seen \<union> set xs) ys"
  by (induction xs arbitrary: seen) (auto simp: insert_absorb)

lemma foldl_patterns_visit_with:
  "foldl (\<lambda>st pattern. foldl (visit_with ex skip fs) st (glob fs pattern)) st ps =
     (fst st @ entries fs (first_wins (snd st) (filter (collectible ex skip fs) (concat (map (glob fs) ps)))),
      snd st \<union> set (filter (collectible ex skip fs) (concat (map (glob fs) ps))))"
proof (induction ps arbitrary: st)
  case Nil
  then show ?case by (simp add: entries_def List.map_filter_simps)
next
  case (Cons p ps)
  let ?st = "foldl (visit_with ex skip fs) st (glob fs p)"
  let ?f = "\<lambda>st pattern. foldl (visit_with ex skip fs) st (glob fs pattern)"
  have "foldl ?f st (p # ps) = foldl ?f ?st ps"
    by simp
  also have "\<dots> = (fst ?st @ entries fs (first_wins (snd ?st) (filter (collectible ex skip fs) (concat (map (glob fs) ps)))),
      snd ?st \<union> set (filter (collectible ex skip fs) (concat (map (glob fs) ps))))"
    by (rule Cons)
  also have "\<dots> = (fst st @ entries fs (first_wins (snd st) (filter (collectible ex skip fs) (concat (map (glob fs) (p # ps))))),
      snd st \<union> set (filter (collectible ex skip fs) (concat (map (glob fs) (p # ps)))))"
    by (simp add: foldl_visit_with first_wins_append entries_append Un_assoc)
  finally show ?case .
qed

lemma first_wins_distinct: "distinct (first_wins seen xs) \<and> set (first_wins seen xs) = set xs - seen"
  by (induction xs arbitrary: seen) auto

lemma map_fst_entries: "map fst (entries fs rels) = filter (\<lambda>rel. read_text fs rel \<noteq> None) rels"
  by (induction rels) (auto simp: entries_def List.map_filter_simps split: option.splits)

lemma gather_core_files_eq:
  "gather_core_files fs =
     entries fs (first_wins {} (filter (collectible EXCLUDE_PATTERNS SKIP_FILES fs)
       (concat (map (glob fs) CORE_PATTERNS))))"
  by (simp add: gather_core_files_def visit_core_eq foldl_patterns_visit_with)

lemma gather_files_v3_eq:
  "gather_files_v3 fs =
     sort_key fst (entries fs (first_wins {} (filter (collectible EXCLUDE_DIRS_v3 SKIP_FILES fs)
       (concat (map (glob fs) CORE_PATTERNS)))))"
  by (simp add: gather_files_v3_def visit_v3_eq foldl_patterns_visit_with)

lemma gather_files_eq:
  "gather_files fs patterns =
     sort_key fst (entries fs (first_wins {}
       (filter (collectible EXCLUDE_DIRS_standalone SKIP_FILES_standalone fs)
          (concat (map (glob fs) patterns)))))"
  by (simp add: gather_files_def gather_unsorted_standalone_def visit_standalone_eq
      foldl_patterns_visit_with)



lemma entries_subset:
  "fst ` set (entries fs rels) \<subseteq> set rels"
  using map_fst_entries [of fs rels] by (metis filter_is_subset list.set_map)

lemma not_collectible_absent:
  "\<not> collectible ex skip fs rel \<Longrightarrow>
   rel \<notin> fst ` set (entries fs (first_wins {} (filter (collectible ex skip fs) cands)))"
  using entries_subset [of fs "first_wins {} (filter (collectible ex skip fs) cands)"]
  by (auto simp: first_wins_distinct)










text \<open>
  Claim C10 (the path filter also rejects files named like an excluded directory). If any
  component of a candidate's path, its own base name included, is a member of the
  excluded-directory set, then \<open>should_include_path\<close> rejects the path and none of the three
  collectors that filter on components returns an entry for it.
\<close>

theorem excluded_component_never_collected:
  assumes c: "c \<in> set (file_parts fs rel) \<or>
              (file_parts fs rel \<noteq> [] \<and> c = path_name (file_parts fs rel))"
  shows "(c \<in> EXCLUDE_PATTERNS \<longrightarrow>
            \<not> should_include_path (file_parts fs rel) \<and> rel \<notin> fst ` set (gather_core_files fs))
       \<and> (c \<in> EXCLUDE_DIRS_v3 \<longrightarrow> rel \<notin> fst ` set (gather_files_v3 fs))
       \<and> (c \<in> EXCLUDE_DIRS_standalone \<longrightarrow> rel \<notin> fst ` set (gather_files fs patterns))"
proof (intro conjI impI)
  from c have assms: "c \<in> set (file_parts fs rel)"
    by (auto simp: path_name_def)
  {
  assume "c \<in> EXCLUDE_PATTERNS"
  with assms show n: "\<not> should_include_path (file_parts fs rel)"
    by (auto simp: should_include_path_def)
  then have "\<not> collectible EXCLUDE_PATTERNS SKIP_FILES fs rel"
    by (simp add: collectible_def should_include_path_def)
  then show "rel \<notin> fst ` set (gather_core_files fs)"
    unfolding gather_core_files_eq by (rule not_collectible_absent)
  }
  {
  assume "c \<in> EXCLUDE_DIRS_v3"
  with assms have "\<not> collectible EXCLUDE_DIRS_v3 SKIP_FILES fs rel"
    by (auto simp: collectible_def)
  then show "rel \<notin> fst ` set (gather_files_v3 fs)"
    unfolding gather_files_v3_eq set_sort by (rule not_collectible_absent)
  }
  {
  assume "c \<in> EXCLUDE_DIRS_standalone"
  with assms have "\<not> collectible EXCLUDE_DIRS_standalone SKIP_FILES_standalone fs rel"
    by (auto simp: collectible_def)
  then show "rel \<notin> fst ` set (gather_files fs patterns)"
    unfolding gather_files_eq set_sort by (rule not_collectible_absent)
  }
qed

lemma example_parts: "file_parts example_fs ''src/build'' = [''src'', ''build'']"
  by (simp add: file_parts_def example_fs_def path_parts_def)

theorem excluded_component_never_collected_witness:
  "path_name (file_parts example_fs ''src/build'') = ''build''
   \<and> is_file example_fs ''src/build'' \<and> read_text example_fs ''src/build'' = Some ''Z''
   \<and> ''src/build'' \<in> set (glob example_fs ''src/*'')
   \<and> \<not> should_include_path (file_parts example_fs ''src/build'')
   \<and> ''src/build'' \<notin> fst ` set (gather_core_files example_fs)
   \<and> ''src/build'' \<notin> fst ` set (gather_files_v3 example_fs)
   \<and> ''src/build'' \<notin> fst ` set (gather_files example_fs [''src/*''])"
proof -
  have "''build'' \<in> set (file_parts example_fs ''src/build'') \<or>
      (file_parts example_fs ''src/build'' \<noteq> [] \<and>
       ''build'' = path_name (file_parts example_fs ''src/build''))"
    by (simp add: example_parts path_name_def)
  from excluded_component_never_collected [OF this, of "[''src/*'']"]
  show ?thesis
    by (simp add: example_parts path_name_def EXCLUDE_PATTERNS_def EXCLUDE_DIRS_v3_def
        EXCLUDE_DIRS_standalone_def) (simp add: example_fs_def)
qed


lemma attempt_range: "[1..<MAX_RETRIES + 1] = [1, 2, 3]"
  by (simp add: MAX_RETRIES_def upt_rec)

lemma attempts_succeed_after:
  assumes "k < MAX_RETRIES" and "\<forall>i<k. isl (body i)" and "body k = Inr v"
  shows "attempts body [1..<MAX_RETRIES + 1] 0 [] =
           \<lparr>result = Inr (Some v), calls = Suc k, sleeps = map (\<lambda>a. 2 ^ a) [1..<Suc k]\<rparr>"
proof -
  from assms(1) consider "k = 0" | "k = 1" | "k = 2"
    by (atomize_elim, simp add: MAX_RETRIES_def, arith)
  then show ?thesis
  proof cases
    case 1
    with assms show ?thesis unfolding attempt_range by simp
  next
    case 2
    with assms have "isl (body 0)" by simp
    then obtain e where "body 0 = Inl e" by (cases "body 0") auto
    with 2 assms show ?thesis unfolding attempt_range by (simp add: MAX_RETRIES_def)
  next
    case 3
    with assms have "isl (body 0)" "isl (body 1)" by simp_all
    then obtain e e' where "body 0 = Inl e" "body 1 = Inl e'"
      by (cases "body 0"; cases "body 1") auto
    with 3 assms show ?thesis unfolding attempt_range by (simp add: MAX_RETRIES_def eval_nat_numeral)
  qed
qed

lemma attempts_exhausted:
  assumes "\<forall>i<MAX_RETRIES. isl (body i)"
  shows "attempts body [1..<MAX_RETRIES + 1] 0 [] =
           \<lparr>result = Inl (projl (body (MAX_RETRIES - 1))), calls = MAX_RETRIES, sleeps = [2, 4]\<rparr>"
proof -
  from assms have "isl (body 0)" "isl (body 1)" "isl (body 2)"
    by (simp_all add: MAX_RETRIES_def)
  then obtain e0 e1 e2 where "body 0 = Inl e0" "body 1 = Inl e1" "body 2 = Inl e2"
    by (cases "body 0"; cases "body 1"; cases "body 2") auto
  then show ?thesis unfolding attempt_range by (simp add: MAX_RETRIES_def eval_nat_numeral)
qed

text \<open>
  Claim C4, as amended (retry policy of the model caller). \<open>review_code\<close> calls the endpoint
  at most \<open>MAX_RETRIES = 3\<close> times. If the first \<open>k < MAX_RETRIES\<close> calls raise and the next one
  answers, it returns that answer after \<open>k + 1\<close> calls and the \<open>k\<close> sleeps of \<open>2 ^ attempt\<close>
  seconds for \<open>attempt = 1, \<dots>, k\<close>. If all \<open>MAX_RETRIES\<close> calls raise, the exception of the
  last call reaches the caller after exactly \<open>MAX_RETRIES\<close> calls and the sleeps of 2 and 4
  seconds; no kind of exception is exempt from the retry. \<open>review_diff\<close> makes one call, never
  sleeps and passes on whatever that call does.
\<close>

theorem retry_policy:
  "(k < MAX_RETRIES \<and> (\<forall>i<k. isl (client (format_prompt tmpl content) i)) \<and>
      client (format_prompt tmpl content) k = Inr v \<longrightarrow>
      review_code client tmpl content =
        \<lparr>result = Inr (Some v), calls = Suc k, sleeps = map (\<lambda>a. 2 ^ a) [1..<Suc k]\<rparr>)
   \<and> ((\<forall>i<MAX_RETRIES. isl (client (format_prompt tmpl content) i)) \<longrightarrow>
      review_code client tmpl content =
        \<lparr>result = Inl (projl (client (format_prompt tmpl content) (MAX_RETRIES - 1))),
         calls = MAX_RETRIES, sleeps = [2, 4]\<rparr>)
   \<and> review_diff client tmpl content =
        \<lparr>result = map_sum id Some (client (format_prompt tmpl content) 0), calls = 1, sleeps = []\<rparr>"
  unfolding review_code_def review_diff_def
  using attempts_succeed_after [of k "client (format_prompt tmpl content)" v]
    attempts_exhausted [of "client (format_prompt tmpl content)"]
  by blast

theorem retry_policy_witness:
  "review_code flaky_client (''Review: '', ''.'') ''code'' =
     \<lparr>result = Inr (Some ''LGTM''), calls = 3, sleeps = [2, 4]\<rparr>
   \<and> review_code dead_client (''Review: '', ''.'') ''code'' =
     \<lparr>result = Inl (TransportError ''attempt 3''), calls = 3, sleeps = [2, 4]\<rparr>
   \<and> review_diff flaky_client (''Review: '', ''.'') ''code'' =
     \<lparr>result = Inl (TransportError ''APITimeoutError''), calls = 1, sleeps = []\<rparr>"
proof -
  have a: "(2::nat) < MAX_RETRIES \<and> (\<forall>i<2. isl (flaky_client (format_prompt (''Review: '', ''.'') ''code'') i))
      \<and> flaky_client (format_prompt (''Review: '', ''.'') ''code'') 2 = Inr ''LGTM''"
    by (simp add: MAX_RETRIES_def flaky_client_def)
  have b: "\<forall>i<MAX_RETRIES. isl (dead_client (format_prompt (''Review: '', ''.'') ''code'') i)"
    by (simp add: dead_client_def)
  have c: "projl (dead_client (format_prompt (''Review: '', ''.'') ''code'') (MAX_RETRIES - 1))
      = TransportError ''attempt 3''"
    by (simp add: dead_client_def MAX_RETRIES_def str_nat.simps digit_char_def)
  from retry_policy [of 2 flaky_client "(''Review: '', ''.'')" "''code''" "''LGTM''"] a
  have 1: "review_code flaky_client (''Review: '', ''.'') ''code'' =
     \<lparr>result = Inr (Some ''LGTM''), calls = 3, sleeps = [2, 4]\<rparr>"
    by (simp add: upt_rec)
  from retry_policy [of 0 dead_client "(''Review: '', ''.'')" "''code''" "''x''"] b c
  have 2: "review_code dead_client (''Review: '', ''.'') ''code'' =
     \<lparr>result = Inl (TransportError ''attempt 3''), calls = 3, sleeps = [2, 4]\<rparr>"
    by (simp add: MAX_RETRIES_def)
  from retry_policy [of 0 flaky_client "(''Review: '', ''.'')" "''code''" "''x''"]
  have 3: "review_diff flaky_client (''Review: '', ''.'') ''code'' =
     \<lparr>result = Inl (TransportError ''APITimeoutError''), calls = 1, sleeps = []\<rparr>"
    by (simp add: flaky_client_def)
  from 1 2 3 show ?thesis by simp
qed

text \<open>
  Claim C4 as stated fails for \<open>review_diff\<close>: against the endpoint that fails twice and then
  answers, it does not return the answer after three calls; the first exception ends it.
\<close>

theorem review_diff_no_retry:
  "\<not> (calls (review_diff flaky_client (''Review: '', ''.'') ''code'') = 3
      \<and> result (review_diff flaky_client (''Review: '', ''.'') ''code'') = Inr (Some ''LGTM''))"
  by (simp add: review_diff_def)

lemma total_len_simps [simp]:
  "total_len [] = 0" "total_len (b # bs) = int (length b) + total_len bs"
  by (simp_all add: total_len_def)

lemma total_len_nonneg: "0 \<le> total_len bs"
  by (induction bs) simp_all

lemma length_concat_total: "int (length (concat bs)) = total_len bs"
  by (induction bs) simp_all

lemma length_blocks [simp]: "length (blocks fs) = length fs"
  by (simp add: blocks_def)

lemma length_blocks_v3 [simp]: "length (blocks_v3 idx n fs) = length fs"
  by (induction fs arbitrary: idx) auto

lemma format_loop_char:
  "\<exists>k\<le>length fs.
     format_loop fs n B parts sz =
       parts @ take k (blocks fs) @
       (if k < length fs then [truncation_marker (int n - int (length parts + k))] else [])
     \<and> (sz \<le> B \<longrightarrow> sz + total_len (take k (blocks fs)) \<le> B)
     \<and> (k < length fs \<longrightarrow> B < sz + total_len (take (Suc k) (blocks fs)))"
proof (induction fs arbitrary: parts sz)
  case Nil
  then show ?case by (simp add: blocks_def)
next
  case (Cons f fs)
  obtain path content where f: "f = (path, content)" by (cases f)
  let ?b = "file_block path content"
  show ?case
  proof (cases "sz + int (length ?b) > B")
    case True
    then show ?thesis
      by (intro exI [of _ 0]) (simp add: f blocks_def)
  next
    case False
    from Cons.IH [where parts = "parts @ [?b]" and sz = "sz + int (length ?b)"]
    obtain k where k: "k \<le> length fs"
      and out: "format_loop fs n B (parts @ [?b]) (sz + int (length ?b)) =
         (parts @ [?b]) @ take k (blocks fs) @
         (if k < length fs then [truncation_marker (int n - int (length (parts @ [?b]) + k))] else [])"
      and fit: "sz + int (length ?b) \<le> B \<longrightarrow> sz + int (length ?b) + total_len (take k (blocks fs)) \<le> B"
      and nxt: "k < length fs \<longrightarrow> B < sz + int (length ?b) + total_len (take (Suc k) (blocks fs))"
      by blast
    have bl: "blocks (f # fs) = ?b # blocks fs" "blocks ((path, content) # fs) = ?b # blocks fs"
      by (simp_all add: blocks_def f)
    show ?thesis
    proof (intro exI [of _ "Suc k"] conjI impI)
      show "Suc k \<le> length (f # fs)" using k by simp
      show "format_loop (f # fs) n B parts sz =
          parts @ take (Suc k) (blocks (f # fs)) @
          (if Suc k < length (f # fs)
           then [truncation_marker (int n - int (length parts + Suc k))] else [])"
        using False out by (simp add: f bl)
      show "sz + total_len (take (Suc k) (blocks (f # fs))) \<le> B"
        using False fit by (simp add: bl)
      show "B < sz + total_len (take (Suc (Suc k)) (blocks (f # fs)))"
        if "Suc k < length (f # fs)"
        using that nxt by (simp add: bl)
    qed
  qed
qed

lemma format_loop_v3_char:
  "\<exists>k\<le>length fs.
     format_loop_v3 fs idx n B parts sz =
       parts @ take k (blocks_v3 idx n fs) @
       (if k < length fs then [marker_v3 (int n - int (length parts + k))] else [])
     \<and> (sz \<le> B \<longrightarrow> sz + total_len (take k (blocks_v3 idx n fs)) \<le> B)
     \<and> (B < sz \<longrightarrow> k = 0)
     \<and> (k < length fs \<longrightarrow> B < sz + total_len (take (Suc k) (blocks_v3 idx n fs)))"
proof (induction fs arbitrary: parts sz idx)
  case Nil
  then show ?case by simp
next
  case (Cons f fs)
  obtain path content where f: "f = (path, content)" by (cases f)
  let ?b = "block_v3 idx n path content"
  show ?case
  proof (cases "sz + int (length ?b) > B")
    case True
    then show ?thesis
      by (intro exI [of _ 0]) (simp add: f)
  next
    case False
    from Cons.IH [where parts = "parts @ [?b]" and sz = "sz + int (length ?b)" and idx = "Suc idx"]
    obtain k where k: "k \<le> length fs"
      and out: "format_loop_v3 fs (Suc idx) n B (parts @ [?b]) (sz + int (length ?b)) =
         (parts @ [?b]) @ take k (blocks_v3 (Suc idx) n fs) @
         (if k < length fs then [marker_v3 (int n - int (length (parts @ [?b]) + k))] else [])"
      and fit: "sz + int (length ?b) \<le> B \<longrightarrow>
         sz + int (length ?b) + total_len (take k (blocks_v3 (Suc idx) n fs)) \<le> B"
      and nxt: "k < length fs \<longrightarrow>
         B < sz + int (length ?b) + total_len (take (Suc k) (blocks_v3 (Suc idx) n fs))"
      by blast
    show ?thesis
    proof (intro exI [of _ "Suc k"] conjI impI)
      show "Suc k \<le> length (f # fs)" using k by simp
      show "format_loop_v3 (f # fs) idx n B parts sz =
          parts @ take (Suc k) (blocks_v3 idx n (f # fs)) @
          (if Suc k < length (f # fs)
           then [marker_v3 (int n - int (length parts + Suc k))] else [])"
        using False out by (simp add: f)
      show "sz + total_len (take (Suc k) (blocks_v3 idx n (f # fs))) \<le> B"
        using False fit by (simp add: f)
      show "Suc k = 0" if "B < sz"
        using that False by simp
      show "B < sz + total_len (take (Suc (Suc k)) (blocks_v3 idx n (f # fs)))"
        if "Suc k < length (f # fs)"
        using that nxt by (simp add: f)
    qed
  qed
qed

text \<open>
  Claim C3, as amended (budget bound and embedded prefix). For a budget \<open>B \<ge> 0\<close>, the plain
  rendering outputs the blocks of the first \<open>k\<close> files of the list sorted by path, where these
  \<open>k\<close> blocks together are at most \<open>B\<close> long and the first \<open>k + 1\<close> are not, followed, when
  \<open>k\<close> is less than the number of files, by one marker stating the number of files left out;
  the output is at most \<open>B\<close> plus the length of that marker long. The annotated rendering of
  \<open>core_review_v3.py\<close> outputs the whole manifest, whatever the budget, then the blocks of the
  first \<open>k\<close> files of the list as passed, where manifest and blocks together are at most \<open>B\<close>
  long if any block is there and adding the next block exceeds \<open>B\<close>, then one marker when
  \<open>k\<close> is less than the number of files; the output is at most the larger of \<open>B\<close> and the
  length of the manifest, plus the length of the marker. Only whole blocks are embedded.
\<close>

theorem budget_bound_and_prefix:
  assumes "0 \<le> B"
  shows "(\<exists>k\<le>length files.
            format_files files B =
              concat (take k (blocks (sort_key fst files))) @
              (if k < length files then truncation_marker (int (length files) - int k) else [])
            \<and> total_len (take k (blocks (sort_key fst files))) \<le> B
            \<and> (k < length files \<longrightarrow> B < total_len (take (Suc k) (blocks (sort_key fst files))))
            \<and> int (length (format_files files B))
                \<le> B + int (length (truncation_marker (int (length files) - int k))))
       \<and> (\<exists>k\<le>length files. \<exists>m.
            format_files_v3 files B =
              manifest files @ concat (take k (blocks_v3 1 (length files) files)) @
              (if k < length files then marker_v3 m else [])
            \<and> (0 < k \<longrightarrow>
                int (length (manifest files)) + total_len (take k (blocks_v3 1 (length files) files)) \<le> B)
            \<and> (k < length files \<longrightarrow>
                B < int (length (manifest files)) +
                    total_len (take (Suc k) (blocks_v3 1 (length files) files)))
            \<and> int (length (format_files_v3 files B))
                \<le> max B (int (length (manifest files))) + int (length (marker_v3 m)))"
proof
  let ?fs = "sort_key fst files"
  from format_loop_char [of ?fs "length ?fs" B "[]" 0]
  obtain k where k0: "k \<le> length ?fs"
    and out0: "format_loop ?fs (length ?fs) B [] 0 =
       [] @ take k (blocks ?fs) @
       (if k < length ?fs then [truncation_marker (int (length ?fs) - int (length ([] :: string list) + k))] else [])"
    and fit0: "0 \<le> B \<longrightarrow> 0 + total_len (take k (blocks ?fs)) \<le> B"
    and nxt0: "k < length ?fs \<longrightarrow> B < 0 + total_len (take (Suc k) (blocks ?fs))"
    by blast
  from k0 have k: "k \<le> length files" by simp
  from out0 have out: "format_loop ?fs (length ?fs) B [] 0 =
       take k (blocks ?fs) @
       (if k < length files then [truncation_marker (int (length files) - int k)] else [])"
    by simp
  from fit0 assms have fit: "total_len (take k (blocks ?fs)) \<le> B" by simp
  from nxt0 have nxt: "k < length files \<longrightarrow> B < total_len (take (Suc k) (blocks ?fs))" by simp
  have eq: "format_files files B =
      concat (take k (blocks ?fs)) @
      (if k < length files then truncation_marker (int (length files) - int k) else [])"
    using out by (simp add: format_files_def Let_def)
  have "int (length (format_files files B))
      \<le> total_len (take k (blocks ?fs)) + int (length (truncation_marker (int (length files) - int k)))"
    unfolding eq by (simp add: length_concat_total)
  with fit have "int (length (format_files files B))
      \<le> B + int (length (truncation_marker (int (length files) - int k)))"
    by linarith
  with k eq fit nxt
  show "\<exists>k\<le>length files.
            format_files files B =
              concat (take k (blocks (sort_key fst files))) @
              (if k < length files then truncation_marker (int (length files) - int k) else [])
            \<and> total_len (take k (blocks (sort_key fst files))) \<le> B
            \<and> (k < length files \<longrightarrow> B < total_len (take (Suc k) (blocks (sort_key fst files))))
            \<and> int (length (format_files files B))
                \<le> B + int (length (truncation_marker (int (length files) - int k)))"
    by (intro exI [of _ k]) simp
next
  let ?M = "manifest files"
  let ?bs = "blocks_v3 1 (length files) files"
  from format_loop_v3_char [of files 1 "length files" B "[?M]" "int (length ?M)"]
  obtain k where k: "k \<le> length files"
    and out: "format_loop_v3 files 1 (length files) B [?M] (int (length ?M)) =
       [?M] @ take k ?bs @
       (if k < length files then [marker_v3 (int (length files) - int (length [?M] + k))] else [])"
    and fit: "int (length ?M) \<le> B \<longrightarrow> int (length ?M) + total_len (take k ?bs) \<le> B"
    and zero: "B < int (length ?M) \<longrightarrow> k = 0"
    and nxt: "k < length files \<longrightarrow> B < int (length ?M) + total_len (take (Suc k) ?bs)"
    by blast
  let ?m = "int (length files) - int (length [?M] + k)"
  have eq: "format_files_v3 files B =
      ?M @ concat (take k ?bs) @ (if k < length files then marker_v3 ?m else [])"
    using out by (simp add: format_files_v3_def)
  have len: "int (length (format_files_v3 files B))
      \<le> int (length ?M) + total_len (take k ?bs) + int (length (marker_v3 ?m))"
    unfolding eq by (simp add: length_concat_total)
  have bound: "int (length ?M) + total_len (take k ?bs) \<le> max B (int (length ?M))"
  proof (cases "int (length ?M) \<le> B")
    case True
    with fit show ?thesis by simp
  next
    case False
    with zero have "k = 0" by simp
    then show ?thesis by simp
  qed
  have pos: "0 < k \<longrightarrow> int (length ?M) + total_len (take k ?bs) \<le> B"
    using fit zero by (cases "int (length ?M) \<le> B") auto
  from len bound have "int (length (format_files_v3 files B))
      \<le> max B (int (length ?M)) + int (length (marker_v3 ?m))"
    by linarith
  with k eq pos nxt
  show "\<exists>k\<le>length files. \<exists>m.
            format_files_v3 files B =
              manifest files @ concat (take k (blocks_v3 1 (length files) files)) @
              (if k < length files then marker_v3 m else [])
            \<and> (0 < k \<longrightarrow>
                int (length (manifest files)) + total_len (take k (blocks_v3 1 (length files) files)) \<le> B)
            \<and> (k < length files \<longrightarrow>
                B < int (length (manifest files)) +
                    total_len (take (Suc k) (blocks_v3 1 (length files) files)))
            \<and> int (length (format_files_v3 files B))
                \<le> max B (int (length (manifest files))) + int (length (marker_v3 m))"
    by (intro exI [of _ k] conjI exI [of _ ?m]) simp_all
qed

lemma two_files_blocks:
  "length (file_block ''a.ts'' (replicate 21 CHR ''X'')) = 50"
  "length (file_block ''b.ts'' (replicate 21 CHR ''Y'')) = 50"
  by code_simp+

lemma plain_marker_scenario:
  "format_files two_files 60 =
     file_block ''a.ts'' (replicate 21 CHR ''X'') @ ''\<newline>... (truncated: 1 more files)''"
  by code_simp

theorem budget_bound_and_prefix_witness:
  "(0::int) \<le> 60
   \<and> format_files two_files 60 = concat (take 1 (blocks (sort_key fst two_files))) @ truncation_marker 1
   \<and> int (length (format_files two_files 60)) \<le> 60 + int (length (truncation_marker 1))
   \<and> (\<exists>k\<le>length two_files. \<exists>m.
        format_files_v3 two_files 60 =
          manifest two_files @ concat (take k (blocks_v3 1 (length two_files) two_files)) @
          (if k < length two_files then marker_v3 m else [])
        \<and> int (length (format_files_v3 two_files 60))
            \<le> max 60 (int (length (manifest two_files))) + int (length (marker_v3 m)))"
proof -
  have 1: "format_files two_files 60 =
      concat (take 1 (blocks (sort_key fst two_files))) @ truncation_marker 1"
    by code_simp
  have 2: "int (length (format_files two_files 60)) \<le> 60 + int (length (truncation_marker 1))"
    by code_simp
  have h: "(0::int) \<le> 60"
    by simp
  from budget_bound_and_prefix [OF h, of two_files]
  have 3: "\<exists>k\<le>length two_files. \<exists>m.
        format_files_v3 two_files 60 =
          manifest two_files @ concat (take k (blocks_v3 1 (length two_files) two_files)) @
          (if k < length two_files then marker_v3 m else [])
        \<and> int (length (format_files_v3 two_files 60))
            \<le> max 60 (int (length (manifest two_files))) + int (length (marker_v3 m))"
    by blast
  from h 1 2 3 show ?thesis
    by blast
qed

text \<open>
  Claim C3 as stated fails in the annotated rendering: the manifest is emitted before any
  budget test, so one small file under a budget of 10 characters gives an output longer than
  the budget plus the marker.
\<close>

theorem manifest_exceeds_budget:
  "format_files_v3 [(''a.ts'', ''X'')] 10 = manifest [(''a.ts'', ''X'')] @ marker_v3 0
   \<and> int (length (format_files_v3 [(''a.ts'', ''X'')] 10)) > 10 + int (length (marker_v3 0))
   \<and> length (marker_v3 1) = length (marker_v3 0)"
  by code_simp

text \<open>
  Claim C7 (the marker states the number of files left out), at a failing input of the
  annotated rendering of \<open>core_review_v3.py\<close>: of two files the first block fits a budget of
  400 characters and the second does not, so one file is left out, and the marker reads
  0 files. The count is \<open>len(files) - len(parts)\<close>, and \<open>parts\<close> also holds the manifest.
\<close>

theorem v3_marker_off_by_one:
  "format_files_v3 [(''a.ts'', ''X''), (''b.ts'', ''Y'')] 400 =
     manifest [(''a.ts'', ''X''), (''b.ts'', ''Y'')] @ block_v3 1 2 ''a.ts'' ''X'' @
     ''\<newline>... truncated (0 files remaining)''"
  by code_simp

lemma standalone_marker_scenario:
  "format_files_standalone [(''a.ts'', ''X''), (''b.ts'', ''Y'')] 400 =
     manifest_standalone [(''a.ts'', ''X''), (''b.ts'', ''Y'')] @ block_standalone 1 2 ''a.ts'' ''X'' @
     ''\<newline>... truncated (1 files remaining)''"
  by code_simp

lemma gather_files_v3_sorted: "sorted (map fst (gather_files_v3 fs))"
  by (simp add: gather_files_v3_def)

lemma fill_buckets_ok:
  "\<forall>item\<in>set items. severity item \<in> dom m \<Longrightarrow>
   fill_buckets m items = Inr (\<lambda>sev. map_option (\<lambda>l. l @ group_of sev items) (m sev))"
proof (induction items arbitrary: m)
  case Nil
  then show ?case by (simp add: group_of_def option.map_ident)
next
  case (Cons item items)
  from Cons.prems obtain l where l: "m (severity item) = Some l"
    by auto
  let ?m = "m(severity item \<mapsto> l @ [item])"
  from Cons.prems have "\<forall>i\<in>set items. severity i \<in> dom ?m"
    by auto
  from Cons.IH [OF this]
  have "fill_buckets ?m items = Inr (\<lambda>sev. map_option (\<lambda>l. l @ group_of sev items) (?m sev))" .
  moreover have "(\<lambda>sev. map_option (\<lambda>l. l @ group_of sev items) (?m sev)) =
      (\<lambda>sev. map_option (\<lambda>l. l @ group_of sev (item # items)) (m sev))"
    by (auto simp: fun_eq_iff l group_of_def)
  ultimately show ?case
    by (simp add: l)
qed

lemma dom_empty_buckets: "dom empty_buckets = set SEVERITIES"
  by (auto simp: empty_buckets_def SEVERITIES_def)

lemma fill_empty_buckets:
  assumes "\<forall>item\<in>set items. severity item \<in> set SEVERITIES"
  shows "fill_buckets empty_buckets items = Inr (buckets_of items)"
proof -
  have "(\<lambda>sev. map_option (\<lambda>l. l @ group_of sev items) (empty_buckets sev)) = buckets_of items"
    by (auto simp: fun_eq_iff buckets_of_def empty_buckets_def SEVERITIES_def)
  with fill_buckets_ok [of items empty_buckets] assms show ?thesis
    by (simp add: dom_empty_buckets)
qed

lemma fill_buckets_bad:
  "item \<in> set items \<Longrightarrow> severity item \<notin> dom m \<Longrightarrow>
   \<exists>sev. sev \<notin> dom m \<and> fill_buckets m items = Inl (KeyError sev)"
proof (induction items arbitrary: m)
  case Nil
  then show ?case by simp
next
  case (Cons i items)
  show ?case
  proof (cases "m (severity i)")
    case None
    then show ?thesis by (intro exI [of _ "severity i"]) (auto simp: domIff)
  next
    case (Some l)
    with Cons.prems have in_rest: "item \<in> set items" by auto
    let ?m = "m(severity i \<mapsto> l @ [i])"
    have d: "dom ?m = dom m" using Some by auto
    with Cons.prems have "severity item \<notin> dom ?m" by simp
    from Cons.IH [OF in_rest this]
    obtain sev where "sev \<notin> dom ?m" "fill_buckets ?m items = Inl (KeyError sev)"
      by blast
    with d Some show ?thesis
      by (intro exI [of _ sev]) (simp del: fun_upd_apply)
  qed
qed

lemma severity_icons_dom: "sev \<in> set SEVERITIES \<Longrightarrow> severity_icons sev \<noteq> None"
  by (auto simp: SEVERITIES_def severity_icons_def)

lemma sections_v3_ok:
  "set sevs \<subseteq> set SEVERITIES \<Longrightarrow>
   sections_v3 (buckets_of items) sevs lines = Inr (lines @ concat (map (section_v3 items) sevs))"
proof (induction sevs arbitrary: lines)
  case Nil
  then show ?case by simp
next
  case (Cons sev sevs)
  then have sev: "sev \<in> set SEVERITIES" and rest: "set sevs \<subseteq> set SEVERITIES"
    by auto
  from severity_icons_dom [OF sev] obtain icon where icon: "severity_icons sev = Some icon"
    by auto
  from sev have b: "buckets_of items sev = Some (group_of sev items)"
    by (simp add: buckets_of_def)
  show ?case
    by (simp add: Cons.IH [OF rest] lookup_def b icon section_v3_def)
qed

lemma sections_standalone_ok:
  "set sevs \<subseteq> set SEVERITIES \<Longrightarrow>
   sections_standalone (buckets_of items) sevs lines =
     Inr (lines @ concat (map (section_standalone items) sevs))"
proof (induction sevs arbitrary: lines)
  case Nil
  then show ?case by simp
next
  case (Cons sev sevs)
  then have sev: "sev \<in> set SEVERITIES" and rest: "set sevs \<subseteq> set SEVERITIES"
    by auto
  from severity_icons_dom [OF sev] obtain icon where icon: "severity_icons sev = Some icon"
    by auto
  from sev have b: "buckets_of items sev = Some (group_of sev items)"
    by (simp add: buckets_of_def)
  show ?case
    by (simp add: Cons.IH [OF rest] lookup_def b icon section_standalone_def)
qed

lemma format_issue_body_lines_ok:
  assumes "\<forall>item\<in>set (improvements r). severity item \<in> set SEVERITIES"
  shows "format_issue_body_lines model r file_count char_count =
     Inr (header_v3 model r file_count char_count (buckets_of (improvements r)) @
          concat (map (section_v3 (improvements r)) SEVERITIES) @ footer_v3 model)"
proof -
  have "sections_v3 (buckets_of (improvements r)) [''critical'', ''high'', ''medium'', ''low'']
      (header_v3 model r file_count char_count (buckets_of (improvements r))) =
    Inr (header_v3 model r file_count char_count (buckets_of (improvements r)) @
         concat (map (section_v3 (improvements r)) SEVERITIES))"
    using sections_v3_ok [of SEVERITIES] by (simp add: SEVERITIES_def)
  then show ?thesis
    by (simp add: format_issue_body_lines_def fill_empty_buckets [OF assms])
qed

lemma format_markdown_lines_ok:
  assumes "\<forall>item\<in>set (improvements r). severity item \<in> set SEVERITIES"
  shows "format_markdown_lines r =
     Inr (header_standalone r @ concat (map (section_standalone (improvements r)) SEVERITIES))"
proof -
  have "sections_standalone (buckets_of (improvements r)) [''critical'', ''high'', ''medium'', ''low'']
      (header_standalone r) =
    Inr (header_standalone r @ concat (map (section_standalone (improvements r)) SEVERITIES))"
    using sections_standalone_ok [of SEVERITIES] by (simp add: SEVERITIES_def)
  then show ?thesis
    by (simp add: format_markdown_lines_def fill_empty_buckets [OF assms])
qed

lemma summary_row:
  "sev \<in> set SEVERITIES \<Longrightarrow>
   count_of (buckets_of items) sev = str_nat (length (group_of sev items))"
  by (simp add: count_of_def buckets_of_def)

text \<open>
  Claim C8, as amended (grouping by severity). For a review whose improvements all carry one
  of the four severities, \<open>format_issue_body\<close> emits its header, in which the row of the
  summary table gives the sizes of the four groups, then one section for each non-empty group
  in the order critical, high, medium, low, each with the improvements of that severity in
  their original order and headed by the size of the group, then its footer.
  \<open>format_markdown\<close> of \<open>review_standalone.py\<close> emits the same sections after a header that has
  no summary table: there the sizes appear in the section headings only.
\<close>

theorem rendering_groups_by_severity:
  assumes "\<forall>item\<in>set (improvements r). severity item \<in> set SEVERITIES"
  shows "format_issue_body_lines model r file_count char_count =
           Inr (header_v3 model r file_count char_count (buckets_of (improvements r)) @
                concat (map (section_v3 (improvements r)) SEVERITIES) @ footer_v3 model)
       \<and> header_v3 model r file_count char_count (buckets_of (improvements r)) ! 12 =
           ''| '' @ str_nat (length (group_of ''critical'' (improvements r))) @ '' | '' @
           str_nat (length (group_of ''high'' (improvements r))) @ '' | '' @
           str_nat (length (group_of ''medium'' (improvements r))) @ '' | '' @
           str_nat (length (group_of ''low'' (improvements r))) @ '' |''
       \<and> format_markdown_lines r =
           Inr (header_standalone r @
                concat (map (section_standalone (improvements r)) SEVERITIES))"
proof (intro conjI)
  show "format_issue_body_lines model r file_count char_count =
           Inr (header_v3 model r file_count char_count (buckets_of (improvements r)) @
                concat (map (section_v3 (improvements r)) SEVERITIES) @ footer_v3 model)"
    using assms by (rule format_issue_body_lines_ok)
  show "format_markdown_lines r =
           Inr (header_standalone r @
                concat (map (section_standalone (improvements r)) SEVERITIES))"
    using assms by (rule format_markdown_lines_ok)
  show "header_v3 model r file_count char_count (buckets_of (improvements r)) ! 12 =
           ''| '' @ str_nat (length (group_of ''critical'' (improvements r))) @ '' | '' @
           str_nat (length (group_of ''high'' (improvements r))) @ '' | '' @
           str_nat (length (group_of ''medium'' (improvements r))) @ '' | '' @
           str_nat (length (group_of ''low'' (improvements r))) @ '' |''"
    by (simp add: header_v3_def summary_row SEVERITIES_def)
qed

theorem rendering_groups_by_severity_witness:
  "set (map severity (improvements sample_review)) \<subseteq> set SEVERITIES
   \<and> map severity (improvements sample_review) = [''low'', ''critical'', ''high'', ''critical'']
   \<and> format_issue_body_lines ''m'' sample_review 12 1234567 =
       Inr (header_v3 ''m'' sample_review 12 1234567 (buckets_of (improvements sample_review)) @
            concat (map (section_v3 (improvements sample_review)) SEVERITIES) @ footer_v3 ''m'')
   \<and> header_v3 ''m'' sample_review 12 1234567 (buckets_of (improvements sample_review)) ! 12 =
       ''| 2 | 1 | 0 | 1 |''
   \<and> filter (\<lambda>l. prefix ''#'' l \<or> prefix ''- [ ]'' l)
        (concat (map (section_v3 (improvements sample_review)) SEVERITIES)) =
       [''#### '' @ icon_critical @ '' Critical (2)'', ''- [ ] **`B`** T-B'', ''- [ ] **`D`** T-D'',
        ''#### '' @ icon_high @ '' High (1)'', ''- [ ] **`C`** T-C'',
        ''#### '' @ icon_low @ '' Low (1)'', ''- [ ] **`A`** T-A'']
   \<and> filter (\<lambda>l. prefix ''#'' l \<or> prefix ''- [ ]'' l)
        (concat (map (section_standalone (improvements sample_review)) SEVERITIES)) =
       [''### '' @ icon_critical @ '' Critical (2)'', ''- [ ] **B**: T-B'', ''- [ ] **D**: T-D'',
        ''### '' @ icon_high @ '' High (1)'', ''- [ ] **C**: T-C'',
        ''### '' @ icon_low @ '' Low (1)'', ''- [ ] **A**: T-A'']"
proof -
  have h: "\<forall>item\<in>set (improvements sample_review). severity item \<in> set SEVERITIES"
    by code_simp
  have s: "map severity (improvements sample_review) = [''low'', ''critical'', ''high'', ''critical'']"
    by code_simp
  have a: "filter (\<lambda>l. prefix ''#'' l \<or> prefix ''- [ ]'' l)
        (concat (map (section_v3 (improvements sample_review)) SEVERITIES)) =
       [''#### '' @ icon_critical @ '' Critical (2)'', ''- [ ] **`B`** T-B'', ''- [ ] **`D`** T-D'',
        ''#### '' @ icon_high @ '' High (1)'', ''- [ ] **`C`** T-C'',
        ''#### '' @ icon_low @ '' Low (1)'', ''- [ ] **`A`** T-A'']"
    by code_simp
  have b: "filter (\<lambda>l. prefix ''#'' l \<or> prefix ''- [ ]'' l)
        (concat (map (section_standalone (improvements sample_review)) SEVERITIES)) =
       [''### '' @ icon_critical @ '' Critical (2)'', ''- [ ] **B**: T-B'', ''- [ ] **D**: T-D'',
        ''### '' @ icon_high @ '' High (1)'', ''- [ ] **C**: T-C'',
        ''### '' @ icon_low @ '' Low (1)'', ''- [ ] **A**: T-A'']"
    by code_simp
  have c: "str_nat (length (group_of ''critical'' (improvements sample_review))) = ''2''"
    "str_nat (length (group_of ''high'' (improvements sample_review))) = ''1''"
    "str_nat (length (group_of ''medium'' (improvements sample_review))) = ''0''"
    "str_nat (length (group_of ''low'' (improvements sample_review))) = ''1''"
    by code_simp+
  from h have h': "set (map severity (improvements sample_review)) \<subseteq> set SEVERITIES"
    by auto
  from rendering_groups_by_severity [OF h, of "''m''" 12 1234567] h' s a b show ?thesis
    by (simp add: c)
qed

text \<open>
  Claim C8 as stated fails for \<open>format_markdown\<close>: its output for the review with the
  severities low, critical, high, critical has neither the head nor the row of a summary
  table; it starts with the fixed header and goes on with the first section.
\<close>

theorem standalone_has_no_summary_table:
  "(case format_markdown_lines sample_review of
      Inl e \<Rightarrow> False
    | Inr lines \<Rightarrow>
        ''| Critical | High | Medium | Low |'' \<notin> set lines \<and> ''| 2 | 1 | 0 | 1 |'' \<notin> set lines \<and>
        take 17 lines = header_standalone sample_review @ [''### '' @ icon_critical @ '' Critical (2)''])"
  by code_simp

text \<open>
  Claim C9, as amended (which enum values are checked when rendering). A severity outside
  critical, high, medium, low makes both renderers fail with \<open>KeyError\<close> on that value. If all
  severities are among the four, both renderers succeed whatever the categories and efforts
  are: a category without an icon is shown with the default pin by \<open>format_issue_body\<close> (and
  as it is by \<open>format_markdown\<close>), and an effort without a label is shown as it is.
\<close>

theorem enum_values_when_rendering:
  "((\<exists>item\<in>set (improvements r). severity item \<notin> set SEVERITIES) \<longrightarrow>
      (\<exists>sev. sev \<notin> set SEVERITIES \<and>
         format_issue_body_lines model r file_count char_count = Inl (KeyError sev) \<and>
         format_markdown_lines r = Inl (KeyError sev)))
   \<and> ((\<forall>item\<in>set (improvements r). severity item \<in> set SEVERITIES) \<longrightarrow>
      (\<exists>lines. format_issue_body_lines model r file_count char_count = Inr lines) \<and>
      (\<exists>lines. format_markdown_lines r = Inr lines))
   \<and> (category_icons (category item) = None \<and> effort_labels (effort item) = None \<longrightarrow>
      item_lines_v3 item ! 1 =
        ''  - '' @ icon_pin @ '' '' @ py_title (category item) @ '' '' @ middle_dot @ '' `'' @
        imp_file item @ ''` '' @ middle_dot @ '' '' @ effort item \<and>
      item_lines_standalone item ! 2 =
        ''  - Category: '' @ category item @ '' | Effort: '' @ effort item)"
proof (intro conjI impI)
  assume "\<exists>item\<in>set (improvements r). severity item \<notin> set SEVERITIES"
  then obtain item where "item \<in> set (improvements r)" "severity item \<notin> dom empty_buckets"
    by (auto simp: dom_empty_buckets)
  from fill_buckets_bad [OF this]
  obtain sev where "sev \<notin> set SEVERITIES" "fill_buckets empty_buckets (improvements r) = Inl (KeyError sev)"
    by (auto simp: dom_empty_buckets)
  then show "\<exists>sev. sev \<notin> set SEVERITIES \<and>
         format_issue_body_lines model r file_count char_count = Inl (KeyError sev) \<and>
         format_markdown_lines r = Inl (KeyError sev)"
    by (intro exI [of _ sev]) (simp add: format_issue_body_lines_def format_markdown_lines_def)
next
  assume ok: "\<forall>item\<in>set (improvements r). severity item \<in> set SEVERITIES"
  show "\<exists>lines. format_issue_body_lines model r file_count char_count = Inr lines"
    using format_issue_body_lines_ok [OF ok] by blast
  show "\<exists>lines. format_markdown_lines r = Inr lines"
    using format_markdown_lines_ok [OF ok] by blast
next
  assume "category_icons (category item) = None \<and> effort_labels (effort item) = None"
  then show "item_lines_v3 item ! 1 =
        ''  - '' @ icon_pin @ '' '' @ py_title (category item) @ '' '' @ middle_dot @ '' `'' @
        imp_file item @ ''` '' @ middle_dot @ '' '' @ effort item"
    and "item_lines_standalone item ! 2 =
        ''  - Category: '' @ category item @ '' | Effort: '' @ effort item"
    by (simp_all add: item_lines_v3_def item_lines_standalone_def)
qed

theorem enum_values_when_rendering_witness:
  "''urgent'' \<in> set (map severity (improvements urgent_review))
   \<and> ''urgent'' \<notin> set SEVERITIES
   \<and> format_issue_body_lines ''m'' urgent_review 1 10 = Inl (KeyError ''urgent'')
   \<and> format_markdown_lines urgent_review = Inl (KeyError ''urgent'')
   \<and> set (map severity (improvements odd_review)) \<subseteq> set SEVERITIES
   \<and> (\<exists>lines. format_issue_body_lines ''m'' odd_review 1 10 = Inr lines)
   \<and> (\<exists>lines. format_markdown_lines odd_review = Inr lines)
   \<and> category_icons (category (imp ''Z'' ''low'' ''compliance'' ''huge'')) = None
   \<and> effort_labels (effort (imp ''Z'' ''low'' ''compliance'' ''huge'')) = None
   \<and> item_lines_v3 (imp ''Z'' ''low'' ''compliance'' ''huge'') ! 1 =
       ''  - '' @ icon_pin @ '' Compliance '' @ middle_dot @ '' `src/main.rs` '' @ middle_dot @ '' huge''
   \<and> item_lines_standalone (imp ''Z'' ''low'' ''compliance'' ''huge'') ! 2 =
       ''  - Category: compliance | Effort: huge''"
proof -
  have bad: "\<exists>item\<in>set (improvements urgent_review). severity item \<notin> set SEVERITIES"
    by code_simp
  have ok: "\<forall>item\<in>set (improvements odd_review). severity item \<in> set SEVERITIES"
    by code_simp
  have none: "category_icons (category (imp ''Z'' ''low'' ''compliance'' ''huge'')) = None \<and>
      effort_labels (effort (imp ''Z'' ''low'' ''compliance'' ''huge'')) = None"
    by (simp add: imp_def category_icons_def effort_labels_def)
  have e: "format_issue_body_lines ''m'' urgent_review 1 10 = Inl (KeyError ''urgent'')"
    "format_markdown_lines urgent_review = Inl (KeyError ''urgent'')"
    by code_simp+
  have t: "py_title ''compliance'' = ''Compliance''"
    by code_simp
  note main = enum_values_when_rendering [of odd_review "''m''" 1 10 "imp ''Z'' ''low'' ''compliance'' ''huge''"]
  from main ok have 1: "(\<exists>lines. format_issue_body_lines ''m'' odd_review 1 10 = Inr lines)
      \<and> (\<exists>lines. format_markdown_lines odd_review = Inr lines)"
    by blast
  from main none have 2: "item_lines_v3 (imp ''Z'' ''low'' ''compliance'' ''huge'') ! 1 =
       ''  - '' @ icon_pin @ '' Compliance '' @ middle_dot @ '' `src/main.rs` '' @ middle_dot @ '' huge''
     \<and> item_lines_standalone (imp ''Z'' ''low'' ''compliance'' ''huge'') ! 2 =
       ''  - Category: compliance | Effort: huge''"
    by (simp add: imp_def t)
  have bad': "''urgent'' \<in> set (map severity (improvements urgent_review))"
    "''urgent'' \<notin> set SEVERITIES"
    by code_simp+
  from main bad bad' e have 0: "format_issue_body_lines ''m'' urgent_review 1 10 = Inl (KeyError ''urgent'')"
    by blast
  from ok have ok': "set (map severity (improvements odd_review)) \<subseteq> set SEVERITIES"
    by auto
  from bad' e ok' 1 none 2 show ?thesis
    by blast
qed

text \<open>
  Claim C9 as stated fails for the category and the effort: an improvement of the category
  \<open>compliance\<close> and the effort \<open>huge\<close>, neither of them in its enum, is rendered by both
  renderers without any error, with the default icon and the effort as it is.
\<close>

theorem unknown_category_and_effort_are_rendered:
  "format_markdown_lines odd_review =
     Inr (header_standalone odd_review @
          [''### '' @ icon_low @ '' Low (1)'', [], ''- [ ] **Z**: T-Z'',
           ''  - File: `src/main.rs` ()'', ''  - Category: compliance | Effort: huge'',
           ''  - **Problem:** P-Z'', ''  - **Solution:** S-Z'', []])
   \<and> format_issue_body_lines ''m'' odd_review 1 10 =
     Inr (header_v3 ''m'' odd_review 1 10 (buckets_of (improvements odd_review)) @
          [''#### '' @ icon_low @ '' Low (1)'', [], ''- [ ] **`Z`** T-Z'',
           ''  - '' @ icon_pin @ '' Compliance '' @ middle_dot @ '' `src/main.rs` '' @ middle_dot @ '' huge'',
           ''  - **Problem:** P-Z'', ''  - **Solution:** S-Z'', []] @
          footer_v3 ''m'')"
  by code_simp

lemma try_extract_fails:
  "client p i = Inr raw \<Longrightarrow> isl (extract_json raw) \<Longrightarrow> isl (try_extract client p i)"
  by (simp add: try_extract_def)

text \<open>
  Claim C5, as amended (an extraction failure is retried like a transport failure). In
  \<open>review_code\<close> of \<open>core_review_v3.py\<close> and of \<open>review_standalone.py\<close> the extraction runs
  inside the retried \<open>try\<close> block. If the first \<open>k < MAX_RETRIES\<close> replies cannot be extracted
  and the next one can, the endpoint is called \<open>k + 1\<close> times, with the sleeps of
  \<open>2 ^ attempt\<close> seconds in between, and the record of that reply is returned. Only if the
  replies of all \<open>MAX_RETRIES\<close> calls cannot be extracted does the failure of the last one
  reach the caller.
\<close>

theorem extraction_failure_is_retried:
  "(k < MAX_RETRIES \<and>
      (\<forall>i<k. \<exists>raw. client (format_prompt tmpl content) i = Inr raw \<and> isl (extract_json raw)) \<and>
      client (format_prompt tmpl content) k = Inr good \<and> extract_json good = Inr j \<longrightarrow>
      review_code_v3 client tmpl content =
        \<lparr>result = Inr (Some j), calls = Suc k, sleeps = map (\<lambda>a. 2 ^ a) [1..<Suc k]\<rparr> \<and>
      review_code_standalone client tmpl content =
        \<lparr>result = Inr (Some j), calls = Suc k, sleeps = map (\<lambda>a. 2 ^ a) [1..<Suc k]\<rparr>)
   \<and> ((\<forall>i<MAX_RETRIES. \<exists>raw. client (format_prompt tmpl content) i = Inr raw \<and>
          isl (extract_json raw)) \<longrightarrow>
      review_code_v3 client tmpl content =
        \<lparr>result = Inl (projl (try_extract client (format_prompt tmpl content) (MAX_RETRIES - 1))),
         calls = MAX_RETRIES, sleeps = [2, 4]\<rparr> \<and>
      review_code_standalone client tmpl content =
        \<lparr>result = Inl (projl (try_extract client (format_prompt tmpl content) (MAX_RETRIES - 1))),
         calls = MAX_RETRIES, sleeps = [2, 4]\<rparr>)"
proof (intro conjI impI)
  let ?p = "format_prompt tmpl content"
  assume a: "k < MAX_RETRIES \<and>
      (\<forall>i<k. \<exists>raw. client ?p i = Inr raw \<and> isl (extract_json raw)) \<and>
      client ?p k = Inr good \<and> extract_json good = Inr j"
  then have f: "\<forall>i<k. isl (try_extract client ?p i)"
    by (auto simp: try_extract_def)
  from a have g: "try_extract client ?p k = Inr j"
    by (simp add: try_extract_def)
  from a have k: "k < MAX_RETRIES" by simp
  show "review_code_v3 client tmpl content =
        \<lparr>result = Inr (Some j), calls = Suc k, sleeps = map (\<lambda>a. 2 ^ a) [1..<Suc k]\<rparr>"
    unfolding review_code_v3_def by (rule attempts_succeed_after [OF k f g])
  show "review_code_standalone client tmpl content =
        \<lparr>result = Inr (Some j), calls = Suc k, sleeps = map (\<lambda>a. 2 ^ a) [1..<Suc k]\<rparr>"
    unfolding review_code_standalone_def by (rule attempts_succeed_after [OF k f g])
next
  let ?p = "format_prompt tmpl content"
  assume "\<forall>i<MAX_RETRIES. \<exists>raw. client ?p i = Inr raw \<and> isl (extract_json raw)"
  then have f: "\<forall>i<MAX_RETRIES. isl (try_extract client ?p i)"
    by (auto simp: try_extract_def)
  show "review_code_v3 client tmpl content =
        \<lparr>result = Inl (projl (try_extract client ?p (MAX_RETRIES - 1))),
         calls = MAX_RETRIES, sleeps = [2, 4]\<rparr>"
    unfolding review_code_v3_def by (rule attempts_exhausted [OF f])
  show "review_code_standalone client tmpl content =
        \<lparr>result = Inl (projl (try_extract client ?p (MAX_RETRIES - 1))),
         calls = MAX_RETRIES, sleeps = [2, 4]\<rparr>"
    unfolding review_code_standalone_def by (rule attempts_exhausted [OF f])
qed

lemma replies_examples:
  "extract_json ''I cannot review this.'' = Inl JSONDecodeError"
  "extract_json ''Sorry {'' = Inl JSONDecodeError"
  "extract_json ''no json'' = Inl JSONDecodeError"
  by code_simp+

lemma replies_good: "extract_json good_reply = Inr (JObject [(u ''risk_score'', JInt 65)])"
  by code_simp

theorem extraction_failure_is_retried_witness:
  "review_code_v3
      (replies [''I cannot review this.'', ''Sorry {'', good_reply])
      (''Review: '', ''.'') ''code'' =
     \<lparr>result = Inr (Some (JObject [(u ''risk_score'', JInt 65)])), calls = 3, sleeps = [2, 4]\<rparr>
   \<and> review_code_standalone (replies [''I cannot review this.'', ''Sorry {'', ''no json''])
      (''Review: '', ''.'') ''code'' =
     \<lparr>result = Inl JSONDecodeError, calls = 3, sleeps = [2, 4]\<rparr>"
proof -
  let ?c = "replies [''I cannot review this.'', ''Sorry {'', good_reply]"
  let ?d = "replies [''I cannot review this.'', ''Sorry {'', ''no json'']"
  let ?p = "format_prompt (''Review: '', ''.'') ''code''"
  have c0: "?c ?p 0 = Inr ''I cannot review this.''" and c1: "?c ?p (Suc 0) = Inr ''Sorry {''"
    and c2: "?c ?p 2 = Inr good_reply"
    by (simp_all add: replies_def)
  have d0: "?d ?p 0 = Inr ''I cannot review this.''" and d1: "?d ?p (Suc 0) = Inr ''Sorry {''"
    and d2: "?d ?p 2 = Inr ''no json''"
    by (simp_all add: replies_def)
  have lt2: "i < 2 \<longleftrightarrow> i = 0 \<or> i = Suc 0" for i :: nat
    by auto
  have lt3: "i < 3 \<longleftrightarrow> i = 0 \<or> i = Suc 0 \<or> i = 2" for i :: nat
    by auto
  have a: "(2::nat) < MAX_RETRIES \<and>
      (\<forall>i<2. \<exists>raw. ?c ?p i = Inr raw \<and> isl (extract_json raw)) \<and>
      ?c ?p 2 = Inr good_reply \<and>
      extract_json good_reply = Inr (JObject [(u ''risk_score'', JInt 65)])"
    using c0 c1 c2 by (auto simp: MAX_RETRIES_def lt2 replies_examples replies_good)
  have b: "\<forall>i<MAX_RETRIES. \<exists>raw. ?d ?p i = Inr raw \<and> isl (extract_json raw)"
    using d0 d1 d2 by (auto simp: MAX_RETRIES_def lt3 replies_examples)
  have e: "projl (try_extract ?d ?p (MAX_RETRIES - 1)) = JSONDecodeError"
    using d2 by (simp add: try_extract_def MAX_RETRIES_def replies_examples)
  from extraction_failure_is_retried [of 2 ?c "(''Review: '', ''.'')" "''code''"
      good_reply "JObject [(u ''risk_score'', JInt 65)]"] a
  have 1: "review_code_v3 ?c (''Review: '', ''.'') ''code'' =
     \<lparr>result = Inr (Some (JObject [(u ''risk_score'', JInt 65)])), calls = 3, sleeps = [2, 4]\<rparr>"
    by (simp add: upt_rec)
  from extraction_failure_is_retried [of 0 ?d "(''Review: '', ''.'')" "''code''" "[]" JNull] b e
  have 2: "review_code_standalone ?d (''Review: '', ''.'') ''code'' =
     \<lparr>result = Inl JSONDecodeError, calls = 3, sleeps = [2, 4]\<rparr>"
    by (simp add: MAX_RETRIES_def)
  from 1 2 show ?thesis by simp
qed

text \<open>
  Claim C5 as stated fails: when the first reply cannot be extracted, \<open>review_code\<close> sleeps
  two seconds and calls the endpoint again by itself, and returns the record of the second
  reply.
\<close>

theorem extraction_failure_calls_again:
  "review_code_v3 (replies [''I cannot review this.'', good_reply])
      (''Review: '', ''.'') ''code'' =
     \<lparr>result = Inr (Some (JObject [(u ''risk_score'', JInt 65)])), calls = 2, sleeps = [2]\<rparr>
   \<and> review_code_standalone (replies [''I cannot review this.'', good_reply])
      (''Review: '', ''.'') ''code'' =
     \<lparr>result = Inr (Some (JObject [(u ''risk_score'', JInt 65)])), calls = 2, sleeps = [2]\<rparr>"
  by code_simp

lemma hex_val_table: "\<forall>k\<in>{0..<16::nat}. hex_val (hex_digit k) = Some k"
  by code_simp

lemma hex_val_hex_digit: "hex_val (hex_digit d) = Some (d mod 16)"
proof -
  have "d mod 16 \<in> {0..<16}" by simp
  with hex_val_table have "hex_val (hex_digit (d mod 16)) = Some (d mod 16)"
    by blast
  then show ?thesis
    by (simp add: hex_digit_def)
qed

lemma horner4:
  "x = a \<Longrightarrow> p = 16 * a + b \<Longrightarrow> q = 16 * p + c \<Longrightarrow> n = 16 * q + d \<Longrightarrow>
   ((x * 16 + b) * 16 + c) * 16 + d = (n::nat)"
  by simp

lemma hex4_escape:
  assumes "n < 65536"
  shows "hex4 (hex_digit (n div 4096)) (hex_digit (n div 256)) (hex_digit (n div 16)) (hex_digit n)
         = Some n"
proof -
  have a: "n div 4096 mod 16 = n div 4096"
    using assms by simp
  have e: "n div 256 div 16 = n div 4096" "n div 16 div 16 = n div 256"
    using div_mult2_eq [of n 256 16] div_mult2_eq [of n 16 16] by simp_all
  have "n div 256 = 16 * (n div 256 div 16) + n div 256 mod 16"
    by simp
  then have b: "n div 256 = 16 * (n div 4096) + n div 256 mod 16"
    by (simp only: e)
  have "n div 16 = 16 * (n div 16 div 16) + n div 16 mod 16"
    by simp
  then have c: "n div 16 = 16 * (n div 256) + n div 16 mod 16"
    by (simp only: e)
  have d: "n = 16 * (n div 16) + n mod 16"
    by simp
  have h: "hex4 (hex_digit (n div 4096)) (hex_digit (n div 256)) (hex_digit (n div 16)) (hex_digit n)
      = Some (((n div 4096 mod 16 * 16 + n div 256 mod 16) * 16 + n div 16 mod 16) * 16 + n mod 16)"
    by (simp only: hex4_def hex_val_hex_digit prod.case option.case)
  show ?thesis
    by (simp only: h horner4 [OF a b c d])
qed

lemma char_of_eq_numeral:
  "n < 256 \<Longrightarrow> (char_of n = c) = (n = (of_char c :: nat))"
  by (simp add: char_of_eq_iff take_bit_eq_mod)

lemma scan_string_escape_u:
  assumes "c < 0xD800"
  shows "scan_string (escape_u c @ cs) acc = scan_string cs (acc @ [c])"
proof -
  from assms have "c < 65536" by simp
  from hex4_escape [OF this] assms show ?thesis
    by (simp add: escape_u_def)
qed

lemma scan_string_special:
  "scan_string (CHR 0x5C # CHR 0x22 # cs) acc = scan_string cs (acc @ [0x22])"
  "scan_string (CHR 0x5C # CHR 0x5C # cs) acc = scan_string cs (acc @ [0x5C])"
  "scan_string (CHR 0x5C # CHR ''n'' # cs) acc = scan_string cs (acc @ [0x0A])"
  "scan_string (CHR 0x5C # CHR ''r'' # cs) acc = scan_string cs (acc @ [0x0D])"
  "scan_string (CHR 0x5C # CHR ''t'' # cs) acc = scan_string cs (acc @ [0x09])"
  "scan_string (CHR 0x5C # CHR ''b'' # cs) acc = scan_string cs (acc @ [0x08])"
  "scan_string (CHR 0x5C # CHR ''f'' # cs) acc = scan_string cs (acc @ [0x0C])"
  by (simp_all add: unescape_def)

lemma scan_string_plain:
  assumes "32 \<le> c" "c < 256" "c \<noteq> 0x22" "c \<noteq> 0x5C"
  shows "scan_string (char_of c # cs) acc = scan_string cs (acc @ [c])"
  using assms by (simp add: char_of_eq_numeral)

lemma scan_string_escape_char:
  assumes "c < 256"
  shows "scan_string (escape_char c @ cs) acc = scan_string cs (acc @ [c])"
proof (cases "c \<in> {0x22, 0x5C, 0x0A, 0x0D, 0x09, 0x08, 0x0C}")
  case True
  then show ?thesis
    by (elim insertE emptyE) (simp_all only: escape_char_def scan_string_special append_Cons append_Nil if_True if_False, simp_all add: scan_string_special del: scan_string.simps)
next
  case False
  show ?thesis
  proof (cases "c < 32 \<or> c > 126")
    case True
    from assms have "c < 0xD800" by simp
    from scan_string_escape_u [OF this] True False assms show ?thesis
      by (simp add: escape_char_def del: scan_string.simps)
  next
    case False
    with \<open>c \<notin> _\<close> assms have "32 \<le> c" "c < 256" "c \<noteq> 0x22" "c \<noteq> 0x5C"
      by auto
    from scan_string_plain [OF this] False \<open>c \<notin> _\<close> show ?thesis
      by (simp add: escape_char_def del: scan_string.simps)
  qed
qed

lemma scan_string_encoded:
  "\<forall>c\<in>set s. c < 256 \<Longrightarrow>
   scan_string (concat (map escape_char s) @ CHR 0x22 # rest) acc = Inr (acc @ s, rest)"
proof (induction s arbitrary: acc)
  case Nil
  show ?case by simp
next
  case (Cons c s)
  then show ?case
    by (simp add: scan_string_escape_char del: scan_string.simps)
qed

lemma digit_char_table:
  "\<forall>k\<in>{0..<10::nat}. is_digit (digit_char k) \<and> digit_val (digit_char k) = k \<and>
     (digit_char k = CHR ''0'' \<longleftrightarrow> k = 0)"
  by code_simp

lemma digit_char_props:
  assumes "k < 10"
  shows "is_digit (digit_char k)" "digit_val (digit_char k) = k" "digit_char k = CHR ''0'' \<longleftrightarrow> k = 0"
proof -
  from assms have "k \<in> {0..<10}" by simp
  with digit_char_table show "is_digit (digit_char k)" "digit_val (digit_char k) = k"
    "digit_char k = CHR ''0'' \<longleftrightarrow> k = 0"
    by blast+
qed

lemma str_nat_nonempty: "str_nat n \<noteq> []"
  by (subst str_nat.simps) simp

lemma str_nat_digits: "c \<in> set (str_nat n) \<Longrightarrow> is_digit c"
proof (induction n arbitrary: c rule: str_nat.induct)
  case (1 n)
  show ?case
  proof (cases "n < 10")
    case True
    with 1(2) show ?thesis
      by (subst (asm) str_nat.simps) (simp add: digit_char_props)
  next
    case False
    from 1(2) have "c \<in> set (str_nat (n div 10)) \<or> c = digit_char (n mod 10)"
      by (subst (asm) str_nat.simps) (auto simp: False)
    with 1(1) [OF False] show ?thesis
      by (auto simp: digit_char_props)
  qed
qed

lemma nat_of_digits_snoc: "nat_of_digits (ds @ [d]) = 10 * nat_of_digits ds + digit_val d"
  by (simp add: nat_of_digits_def)

lemma nat_of_digits_str_nat: "nat_of_digits (str_nat n) = n"
proof (induction n rule: str_nat.induct)
  case (1 n)
  show ?case
  proof (cases "n < 10")
    case True
    then show ?thesis
      by (subst str_nat.simps) (simp add: nat_of_digits_def digit_char_props)
  next
    case False
    have "nat_of_digits (str_nat n) = 10 * nat_of_digits (str_nat (n div 10)) + digit_val (digit_char (n mod 10))"
      by (subst str_nat.simps) (simp add: False nat_of_digits_snoc)
    with 1 [OF False] show ?thesis
      by (simp add: digit_char_props)
  qed
qed

lemma hd_str_nat: "hd (str_nat n) = CHR ''0'' \<longleftrightarrow> n = 0"
proof (induction n rule: str_nat.induct)
  case (1 n)
  show ?case
  proof (cases "n < 10")
    case True
    then show ?thesis
      by (subst str_nat.simps) (simp add: digit_char_props)
  next
    case False
    have "hd (str_nat n) = hd (str_nat (n div 10))"
      by (subst str_nat.simps) (simp add: False str_nat_nonempty)
    with 1 [OF False] False show ?thesis
      by simp
  qed
qed

lemma stop_no_digit: "stop rest \<Longrightarrow> rest \<noteq> [] \<Longrightarrow> \<not> is_digit (hd rest)"
  by (auto simp: stop_def is_digit_def)

lemma takeWhile_digits:
  assumes "stop rest"
  shows "takeWhile is_digit (str_nat n @ rest) = str_nat n"
    and "dropWhile is_digit (str_nat n @ rest) = rest"
proof -
  have a: "\<forall>c\<in>set (str_nat n). is_digit c"
    by (simp add: str_nat_digits)
  have b: "takeWhile is_digit rest = []" "dropWhile is_digit rest = rest"
    using stop_no_digit [OF assms] by (cases rest; simp)+
  from a b show "takeWhile is_digit (str_nat n @ rest) = str_nat n"
    by (simp add: takeWhile_append2)
  from a b show "dropWhile is_digit (str_nat n @ rest) = rest"
    by (simp add: dropWhile_append2)
qed

lemma stop_no_frac: "stop rest \<Longrightarrow> frac_part rest = [] \<and> exp_part rest = []"
  by (cases rest) (auto simp: stop_def frac_part_def exp_part_def split: list.splits)

lemma int_part_str_nat:
  assumes "stop rest"
  shows "int_part (str_nat n @ rest) = Some (str_nat n, rest)"
proof (cases "n = 0")
  case True
  have "str_nat 0 = ''0''"
    by code_simp
  with True show ?thesis
    by (simp add: int_part_def)
next
  case False
  obtain c cs where s: "str_nat n = c # cs"
    using str_nat_nonempty [of n] by (cases "str_nat n") auto
  from False hd_str_nat [of n] s have c0: "c \<noteq> CHR ''0''"
    by simp
  from str_nat_digits [of c n] s have cd: "is_digit c"
    by simp
  from takeWhile_digits [OF assms, of n] s c0 cd show ?thesis
    by (simp add: int_part_def)
qed

lemma match_number_str_int:
  assumes "stop rest"
  shows "match_number (str_int i @ rest) = Some (JInt i, rest)"
proof (cases "i < 0")
  case True
  from int_part_str_nat [OF assms, of "nat (- i)"] stop_no_frac [OF assms] True
  show ?thesis
    by (simp add: match_number_def str_int_def nat_of_digits_str_nat)
next
  case False
  obtain c cs where s: "str_nat (nat i) = c # cs"
    using str_nat_nonempty [of "nat i"] by (cases "str_nat (nat i)") auto
  from str_nat_digits [of c "nat i"] s have "is_digit c"
    by simp
  then have "c \<noteq> CHR ''-''"
    by (auto simp: is_digit_def)
  have v: "int (nat_of_digits (c # cs)) = i"
    using nat_of_digits_str_nat [of "nat i"] False by (simp add: s)
  with int_part_str_nat [OF assms, of "nat i"] stop_no_frac [OF assms] False s \<open>c \<noteq> CHR ''-''\<close>
  show ?thesis
    by (simp add: match_number_def str_int_def)
qed

lemma join_Cons: "join sep (x # xs) = x @ concat (map (\<lambda>y. sep @ y) xs)"
  by (induction xs arbitrary: x) simp_all

lemma str_int_head: "\<exists>c cs. str_int i = c # cs \<and> (is_digit c \<or> c = CHR ''-'')"
proof (cases "i < 0")
  case True
  then show ?thesis by (simp add: str_int_def)
next
  case False
  obtain c cs where s: "str_nat (nat i) = c # cs"
    using str_nat_nonempty [of "nat i"] by (cases "str_nat (nat i)") auto
  with str_nat_digits [of c "nat i"] False show ?thesis
    by (simp add: str_int_def)
qed

lemma json_dumps_head:
  assumes "plain j"
  shows "\<exists>c cs. json_dumps j = c # cs \<and> value_head c"
proof (cases j)
  case (JInt i)
  with str_int_head [of i] show ?thesis
    by (auto simp: value_head_def)
next
  case (JFloat l)
  with assms show ?thesis by simp
next
  case (JString s)
  then show ?thesis by (simp add: encode_string_def value_head_def)
qed (simp_all add: value_head_def)

lemma value_head_not_ws: "value_head c \<Longrightarrow> \<not> is_ws c \<and> c \<noteq> CHR '']'' \<and> c \<noteq> CHR ''}''"
  by (auto simp: value_head_def is_ws_def is_digit_def)

lemma skip_ws_dumps:
  assumes "plain j"
  shows "skip_ws (json_dumps j @ rest) = json_dumps j @ rest"
    and "skip_ws (CHR '' '' # json_dumps j @ rest) = json_dumps j @ rest"
proof -
  from json_dumps_head [OF assms] obtain c cs where "json_dumps j = c # cs" "value_head c"
    by blast
  with value_head_not_ws [of c] show "skip_ws (json_dumps j @ rest) = json_dumps j @ rest"
    and "skip_ws (CHR '' '' # json_dumps j @ rest) = json_dumps j @ rest"
    by (simp_all add: skip_ws_def is_ws_def)
qed

lemma skip_ws_stop: "stop rest \<Longrightarrow> skip_ws rest = rest"
  by (cases rest) (auto simp: stop_def skip_ws_def is_ws_def)

lemma scan_once_JNull: "scan_once (Suc n) (json_dumps JNull @ rest) = Inr (JNull, rest)"
  by simp

lemma scan_once_JBool: "scan_once (Suc n) (json_dumps (JBool b) @ rest) = Inr (JBool b, rest)"
  by simp

lemma scan_once_JString:
  "list_all (\<lambda>c. c < 256) s \<Longrightarrow>
   scan_once (Suc n) (json_dumps (JString s) @ rest) = Inr (JString s, rest)"
  using scan_string_encoded [of s rest "[]"]
  by (simp add: encode_string_def list_all_iff)

lemma scan_once_JInt:
  assumes "stop rest"
  shows "scan_once (Suc n) (json_dumps (JInt i) @ rest) = Inr (JInt i, rest)"
proof -
  from str_int_head [of i] obtain c cs where s: "str_int i = c # cs" and c: "is_digit c \<or> c = CHR ''-''"
    by blast
  from c have "c \<noteq> CHR 0x22" "c \<noteq> CHR ''{''" "c \<noteq> CHR ''[''" "c \<noteq> CHR ''n''" "c \<noteq> CHR ''t''"
    "c \<noteq> CHR ''f''"
    by (auto simp: is_digit_def)
  with match_number_str_int [OF assms, of i] s show ?thesis
    by simp
qed

lemma scan_elements_ok:
  assumes ih: "\<And>v n rest. v \<in> set (v0 # vs) \<Longrightarrow> stop rest \<Longrightarrow> 2 * size v + 1 \<le> n \<Longrightarrow>
      scan_once n (json_dumps v @ rest) = Inr (v, rest)"
    and pl: "\<And>v. v \<in> set (v0 # vs) \<Longrightarrow> plain v"
    and fuel: "(\<Sum>v\<leftarrow>v0 # vs. 2 * size v + 2) \<le> n"
  shows "scan_elements n acc
           (json_dumps v0 @ concat (map (\<lambda>y. '', '' @ json_dumps y) vs) @ CHR '']'' # rest)
         = Inr (JArray (acc @ v0 # vs), rest)"
  using assms
proof (induction vs arbitrary: v0 acc n)
  case Nil
  from Nil.prems(3) obtain m where n: "n = Suc m" and m: "2 * size v0 + 1 \<le> m"
    by (cases n) auto
  have "scan_once m (json_dumps v0 @ CHR '']'' # rest) = Inr (v0, CHR '']'' # rest)"
    by (rule Nil.prems(1)) (use m in \<open>simp_all add: stop_def\<close>)
  then show ?case
    by (simp add: n skip_ws_def is_ws_def)
next
  case (Cons v1 vs)
  from Cons.prems(3) obtain m where n: "n = Suc m" and m: "2 * size v0 + 1 \<le> m"
      and m': "(\<Sum>v\<leftarrow>v1 # vs. 2 * size v + 2) \<le> m"
    by (cases n) auto
  let ?tail = "json_dumps v1 @ concat (map (\<lambda>y. '', '' @ json_dumps y) vs) @ CHR '']'' # rest"
  have a: "scan_once m (json_dumps v0 @ CHR '','' # CHR '' '' # ?tail) = Inr (v0, CHR '','' # CHR '' '' # ?tail)"
    by (rule Cons.prems(1)) (use m in \<open>simp_all add: stop_def\<close>)
  have b: "skip_ws (CHR '' '' # ?tail) = ?tail"
    using skip_ws_dumps(2) [of v1] Cons.prems(2) [of v1] by simp
  have c: "scan_elements m (acc @ [v0]) ?tail = Inr (JArray ((acc @ [v0]) @ v1 # vs), rest)"
    by (rule Cons.IH) (use Cons.prems m' in auto)
  show ?case
    using a b c by (simp add: n skip_ws_def is_ws_def)
qed

lemma dict_update_fresh: "k \<notin> fst ` set d \<Longrightarrow> dict_update k v d = d @ [(k, v)]"
  by (induction d) auto

lemma dict_of_distinct_aux:
  "distinct (map fst (d @ kvs)) \<Longrightarrow> foldl (\<lambda>d (k, v). dict_update k v d) d kvs = d @ kvs"
proof (induction kvs arbitrary: d)
  case Nil
  show ?case by simp
next
  case (Cons kv kvs)
  obtain k v where kv: "kv = (k, v)" by (cases kv)
  from Cons.prems have "k \<notin> fst ` set d"
    by (auto simp: kv)
  then have "dict_update k v d = d @ [(k, v)]"
    by (rule dict_update_fresh)
  moreover from Cons.prems have "distinct (map fst ((d @ [(k, v)]) @ kvs))"
    by (simp add: kv)
  ultimately show ?case
    using Cons.IH [of "d @ [(k, v)]"] by (simp add: kv)
qed

lemma dict_of_distinct: "distinct (map fst kvs) \<Longrightarrow> dict_of kvs = kvs"
  using dict_of_distinct_aux [of "[]" kvs] by (simp add: dict_of_def)

lemma scan_members_ok:
  assumes ih: "\<And>kv n rest. kv \<in> set (kv0 # kvs) \<Longrightarrow> stop rest \<Longrightarrow> 2 * size (snd kv) + 1 \<le> n \<Longrightarrow>
      scan_once n (json_dumps (snd kv) @ rest) = Inr (snd kv, rest)"
    and pl: "\<And>kv. kv \<in> set (kv0 # kvs) \<Longrightarrow> plain (snd kv) \<and> list_all (\<lambda>c. c < 256) (fst kv)"
    and fuel: "(\<Sum>kv\<leftarrow>kv0 # kvs. 2 * size (snd kv) + 2) \<le> n"
  shows "scan_members n acc
           (mtext kv0 @ concat (map (\<lambda>y. '', '' @ CHR 0x22 # mtext y) kvs) @ CHR ''}'' # rest)
         = Inr (JObject (dict_of (acc @ kv0 # kvs)), rest)"
  using assms
proof (induction kvs arbitrary: kv0 acc n)
  case Nil
  from Nil.prems(3) obtain m where n: "n = Suc m" and m: "2 * size (snd kv0) + 1 \<le> m"
    by (cases n) auto
  have k: "\<forall>c\<in>set (fst kv0). c < 256"
    using Nil.prems(2) [of kv0] by (simp add: list_all_iff)
  have s: "scan_string (mtext kv0 @ CHR ''}'' # rest) [] =
      Inr (fst kv0, '': '' @ json_dumps (snd kv0) @ CHR ''}'' # rest)"
    using scan_string_encoded [OF k, of "'': '' @ json_dumps (snd kv0) @ CHR ''}'' # rest" "[]"]
    by (simp add: mtext_def)
  have w: "skip_ws (CHR '' '' # json_dumps (snd kv0) @ CHR ''}'' # rest) = json_dumps (snd kv0) @ CHR ''}'' # rest"
    using skip_ws_dumps(2) [of "snd kv0"] Nil.prems(2) [of kv0] by simp
  have a: "scan_once m (json_dumps (snd kv0) @ CHR ''}'' # rest) = Inr (snd kv0, CHR ''}'' # rest)"
    by (rule Nil.prems(1)) (use m in \<open>simp_all add: stop_def\<close>)
  show ?case
    using s w a by (simp add: n skip_ws_def is_ws_def del: scan_string.simps)
next
  case (Cons kv1 kvs)
  from Cons.prems(3) obtain m where n: "n = Suc m" and m: "2 * size (snd kv0) + 1 \<le> m"
      and m': "(\<Sum>kv\<leftarrow>kv1 # kvs. 2 * size (snd kv) + 2) \<le> m"
    by (cases n) auto
  let ?tail = "mtext kv1 @ concat (map (\<lambda>y. '', '' @ CHR 0x22 # mtext y) kvs) @ CHR ''}'' # rest"
  let ?after = "CHR '','' # CHR '' '' # CHR 0x22 # ?tail"
  have k: "\<forall>c\<in>set (fst kv0). c < 256"
    using Cons.prems(2) [of kv0] by (simp add: list_all_iff)
  have s: "scan_string (mtext kv0 @ ?after) [] = Inr (fst kv0, '': '' @ json_dumps (snd kv0) @ ?after)"
    using scan_string_encoded [OF k, of "'': '' @ json_dumps (snd kv0) @ ?after" "[]"]
    by (simp add: mtext_def)
  have w: "skip_ws (CHR '' '' # json_dumps (snd kv0) @ ?after) = json_dumps (snd kv0) @ ?after"
    using skip_ws_dumps(2) [of "snd kv0"] Cons.prems(2) [of kv0] by simp
  have a: "scan_once m (json_dumps (snd kv0) @ ?after) = Inr (snd kv0, ?after)"
    by (rule Cons.prems(1)) (use m in \<open>simp_all add: stop_def\<close>)
  have c: "scan_members m (acc @ [kv0]) ?tail = Inr (JObject (dict_of ((acc @ [kv0]) @ kv1 # kvs)), rest)"
    by (rule Cons.IH) (use Cons.prems m' in auto)
  show ?case
    using s w a c by (simp add: n skip_ws_def is_ws_def del: scan_string.simps)
qed

lemma fuel_elements: "(\<Sum>v\<leftarrow>vs. 2 * size v + 2) = 2 * size_list size vs"
  by (induction vs) simp_all

lemma fuel_members:
  "(\<Sum>kv\<leftarrow>kvs. 2 * size (snd kv) + 2) \<le> 2 * size_list (size_prod (\<lambda>x. 0) size) kvs"
  by (induction kvs) auto

lemma scan_once_dumps:
  "plain j \<Longrightarrow> stop rest \<Longrightarrow> 2 * size j + 1 \<le> n \<Longrightarrow>
   scan_once n (json_dumps j @ rest) = Inr (j, rest)"
proof (induction j arbitrary: n rest)
  case JNull
  then obtain m where "n = Suc m" by (cases n) auto
  then show ?case by simp
next
  case (JBool b)
  then obtain m where "n = Suc m" by (cases n) auto
  then show ?case by simp
next
  case (JInt i)
  then obtain m where "n = Suc m" by (cases n) auto
  with scan_once_JInt [OF JInt.prems(2)] show ?case by simp
next
  case (JFloat l)
  then show ?case by simp
next
  case (JString s)
  then obtain m where "n = Suc m" by (cases n) auto
  with scan_once_JString [of s] JString.prems(1) show ?case by simp
next
  case (JArray vs)
  from JArray.prems(3) obtain m where n: "n = Suc m" and m: "2 * size_list size vs + 2 \<le> m"
    by (cases n) auto
  show ?case
  proof (cases vs)
    case Nil
    then show ?thesis
      by (simp add: n skip_ws_def is_ws_def)
  next
    case (Cons v0 ws)
    let ?text = "json_dumps v0 @ concat (map (\<lambda>y. '', '' @ json_dumps y) ws) @ CHR '']'' # rest"
    from JArray.prems(1) have pl: "\<And>v. v \<in> set (v0 # ws) \<Longrightarrow> plain v"
      by (auto simp: Cons list_all_iff)
    from json_dumps_head [OF pl [of v0]] obtain c cs where h: "json_dumps v0 = c # cs" "value_head c"
      by auto
    have e: "scan_elements m [] ?text = Inr (JArray ([] @ v0 # ws), rest)"
    proof (rule scan_elements_ok)
      fix v k r
      assume "v \<in> set (v0 # ws)" "stop r" "2 * size v + 1 \<le> k"
      with JArray.IH [of v r k] pl [of v] show "scan_once k (json_dumps v @ r) = Inr (v, r)"
        by (simp add: Cons)
    next
      fix v assume "v \<in> set (v0 # ws)"
      then show "plain v" by (rule pl)
    next
      from m show "(\<Sum>v\<leftarrow>v0 # ws. 2 * size v + 2) \<le> m"
        unfolding fuel_elements by (simp add: Cons)
    qed
    have w: "skip_ws ?text = ?text"
      using h value_head_not_ws [of c] by (simp add: skip_ws_def)
    have "json_dumps (JArray vs) @ rest = CHR ''['' # ?text"
      by (simp add: Cons join_Cons comp_def)
    then show ?thesis
      using e w h value_head_not_ws [of c] by (simp add: n Cons del: json_dumps.simps)
  qed
next
  case (JObject kvs)
  from JObject.prems(3) obtain m where n: "n = Suc m"
      and m: "2 * size_list (size_prod (\<lambda>x. 0) size) kvs + 2 \<le> m"
    by (cases n) auto
  from JObject.prems(1) have d: "distinct (map fst kvs)"
    by simp
  show ?case
  proof (cases kvs)
    case Nil
    then show ?thesis
      by (simp add: n skip_ws_def is_ws_def)
  next
    case (Cons kv0 ws)
    let ?text = "mtext kv0 @ concat (map (\<lambda>y. '', '' @ CHR 0x22 # mtext y) ws) @ CHR ''}'' # rest"
    from JObject.prems(1) have pl: "\<And>kv. kv \<in> set (kv0 # ws) \<Longrightarrow> plain (snd kv) \<and> list_all (\<lambda>c. c < 256) (fst kv)"
      by (auto simp: Cons list_all_iff)
    have e: "scan_members m [] ?text = Inr (JObject (dict_of ([] @ kv0 # ws)), rest)"
    proof (rule scan_members_ok)
      fix kv k r
      assume a: "kv \<in> set (kv0 # ws)" "stop r" "2 * size (snd kv) + 1 \<le> k"
      have "snd kv \<in> Basic_BNFs.snds kv"
        by (cases kv) simp
      with JObject.IH [of kv "snd kv" r k] a pl [of kv]
      show "scan_once k (json_dumps (snd kv) @ r) = Inr (snd kv, r)"
        by (simp add: Cons)
    next
      fix kv assume "kv \<in> set (kv0 # ws)"
      then show "plain (snd kv) \<and> list_all (\<lambda>c. c < 256) (fst kv)" by (rule pl)
    next
      from m fuel_members [of kvs] show "(\<Sum>kv\<leftarrow>kv0 # ws. 2 * size (snd kv) + 2) \<le> m"
        by (simp add: Cons)
    qed
    have "(\<lambda>(k, v). encode_string k @ '': '' @ json_dumps v) = (\<lambda>kv. CHR 0x22 # mtext kv)"
      by (auto simp: fun_eq_iff mtext_def encode_string_def)
    then have "json_dumps (JObject kvs) @ rest = CHR ''{'' # CHR 0x22 # ?text"
      by (simp add: Cons join_Cons comp_def)
    then show ?thesis
      using e d by (simp add: n Cons dict_of_distinct skip_ws_def is_ws_def del: json_dumps.simps)
  qed
qed

lemma size_list_concat:
  assumes "\<And>x. x \<in> set xs \<Longrightarrow> f x < length (h x)"
  shows "size_list f xs \<le> length (concat (map h xs))"
  using assms
proof (induction xs)
  case Nil
  show ?case by simp
next
  case (Cons x xs)
  from Cons.prems [of x] have "f x < length (h x)" by simp
  moreover from Cons have "size_list f xs \<le> length (concat (map h xs))" by simp
  ultimately show ?case by simp
qed

lemma size_le_dumps: "size j \<le> length (json_dumps j)"
proof (induction j)
  case (JArray vs)
  have "size_list size vs \<le> Suc (length (join '', '' (map json_dumps vs)))"
  proof (cases vs)
    case Nil
    then show ?thesis by simp
  next
    case (Cons v0 ws)
    have "size_list size ws \<le> length (concat (map (\<lambda>y. '', '' @ json_dumps y) ws))"
    proof (rule size_list_concat)
      fix x assume "x \<in> set ws"
      with JArray.IH [of x] show "size x < length ('', '' @ json_dumps x)"
        by (simp add: Cons)
    qed
    with JArray.IH [of v0] show ?thesis
      by (simp add: Cons join_Cons comp_def)
  qed
  then show ?case by simp
next
  case (JObject kvs)
  let ?m = "\<lambda>(k, v). encode_string k @ '': '' @ json_dumps v"
  have ih: "kv \<in> set kvs \<Longrightarrow> size (snd kv) \<le> length (json_dumps (snd kv))" for kv
    using JObject.IH [of kv "snd kv"] by (cases kv) simp
  have "size_list (size_prod (\<lambda>x. 0) size) kvs \<le> Suc (length (join '', '' (map ?m kvs)))"
  proof (cases kvs)
    case Nil
    then show ?thesis by simp
  next
    case (Cons kv0 ws)
    have "size_list (size_prod (\<lambda>x. 0) size) ws \<le> length (concat (map (\<lambda>y. '', '' @ ?m y) ws))"
    proof (rule size_list_concat)
      fix x assume "x \<in> set ws"
      with ih [of x] show "size_prod (\<lambda>x. 0) size x < length ('', '' @ ?m x)"
        by (cases x) (simp add: Cons encode_string_def)
    qed
    with ih [of kv0] show ?thesis
      by (cases kv0) (simp add: Cons join_Cons encode_string_def comp_def)
  qed
  then show ?case by simp
qed simp_all

text \<open>Reading back what \<open>json_dumps\<close> wrote.\<close>

lemma json_loads_dumps:
  assumes "plain j"
  shows "json_loads (json_dumps j) = Inr j"
proof -
  have "2 * size j + 1 \<le> 2 * length (json_dumps j) + 1"
    using size_le_dumps [of j] by simp
  with scan_once_dumps [OF assms, of "[]" "2 * length (json_dumps j) + 1"]
  have "scan_once (2 * length (json_dumps j) + 1) (json_dumps j) = Inr (j, [])"
    by (simp add: stop_def)
  with skip_ws_dumps(1) [OF assms, of "[]"] show ?thesis
    by (simp add: json_loads_def skip_ws_def)
qed

lemma find_in_absent: "\<not> sublist sub s \<Longrightarrow> find_in sub s i = - 1"
proof (induction s arbitrary: i)
  case Nil
  then show ?case by auto
next
  case (Cons c cs)
  then show ?case
    by (auto simp: sublist_Cons_right)
qed

lemma prefix_shorter: "prefix a (b @ c) \<Longrightarrow> length a \<le> length b \<Longrightarrow> prefix a b"
  by (metis prefix_append prefix_length_le prefix_order.antisym prefix_order.refl prefix_length_prefix prefix_def)

lemma first_occurrence:
  "\<not> sublist sub (xs @ butlast sub) \<Longrightarrow> sub \<noteq> [] \<Longrightarrow>
   find_in sub (xs @ sub @ ys) i = int (i + length xs)"
proof (induction xs arbitrary: i)
  case Nil
  then obtain c cs where "sub = c # cs" by (cases sub) auto
  then show ?case by simp
next
  case (Cons x xs)
  have "\<not> prefix sub (x # xs @ sub @ ys)"
  proof
    assume p: "prefix sub (x # xs @ sub @ ys)"
    have "x # xs @ sub @ ys = (x # xs @ butlast sub) @ [last sub] @ ys"
      using Cons.prems(2) by simp
    with p have "prefix sub ((x # xs @ butlast sub) @ [last sub] @ ys)"
      by simp
    moreover have "length sub \<le> length (x # xs @ butlast sub)"
      by simp
    ultimately have "prefix sub (x # xs @ butlast sub)"
      by (rule prefix_shorter)
    with Cons.prems(1) show False
      by (auto simp: sublist_Cons_right)
  qed
  moreover from Cons.prems(1) have "\<not> sublist sub (xs @ butlast sub)"
    by (auto simp: sublist_Cons_right)
  ultimately show ?case
    using Cons.IH [of "Suc i"] Cons.prems(2) by simp
qed

lemma no_straddle:
  assumes "\<not> sublist sub X" "\<not> sublist sub Y" "Y \<noteq> []" "hd Y \<notin> set sub"
  shows "\<not> sublist sub (X @ Y)"
proof
  assume "sublist sub (X @ Y)"
  with assms(1,2) obtain xs1 xs2 where s: "sub = xs1 @ xs2" "suffix xs1 X" "prefix xs2 Y"
    by (auto simp: sublist_append)
  show False
  proof (cases xs2)
    case Nil
    with s assms(1) show False
      by (auto simp: suffix_imp_sublist)
  next
    case (Cons c cs)
    with s(3) assms(3) have "hd Y = c"
      by (cases Y) auto
    with s(1) Cons assms(4) show False
      by simp
  qed
qed

lemma absent_char: "c \<in> set sub \<Longrightarrow> c \<notin> set s \<Longrightarrow> \<not> sublist sub s"
  using set_mono_sublist by fastforce

lemma no_border:
  assumes "\<not> sublist sub X" "sub \<noteq> []" "last sub \<notin> set (butlast sub)"
  shows "\<not> sublist sub (X @ butlast sub)"
proof
  assume "sublist sub (X @ butlast sub)"
  then obtain ps ss where "X @ butlast sub = ps @ sub @ ss"
    by (auto simp: sublist_def)
  then have "X @ butlast sub = (ps @ sub) @ ss"
    by simp
  then have "\<exists>us. X = (ps @ sub) @ us \<and> us @ butlast sub = ss \<or>
      X @ us = ps @ sub \<and> butlast sub = us @ ss"
    by (simp only: append_eq_append_conv2)
  then consider us where "X = (ps @ sub) @ us" | us where "X @ us = ps @ sub" "butlast sub = us @ ss"
    by blast
  then show False
  proof cases
    case 1
    have "sublist sub (ps @ sub @ us)" by (rule sublist_appendI)
    with 1 assms(1) show False by simp
  next
    case 2
    show False
    proof (cases "us = []")
      case True
      have "sublist sub (ps @ sub @ [])" by (rule sublist_appendI)
      with True 2 assms(1) show False by simp
    next
      case False
      then have "last (X @ us) = last us" by simp
      with 2(1) assms(2) have "last us = last sub" by simp
      moreover from False have "last us \<in> set us" by simp
      ultimately have "last sub \<in> set (butlast sub)" using 2(2) by simp
      with assms(3) show False by simp
    qed
  qed
qed

lemma disjoint_border:
  assumes "set sub \<inter> set X = {}" "sub \<noteq> []"
  shows "\<not> sublist sub (X @ butlast sub)"
proof
  assume "sublist sub (X @ butlast sub)"
  then obtain ps ss where e: "X @ butlast sub = ps @ sub @ ss"
    by (auto simp: sublist_def)
  then have "length (X @ butlast sub) = length (ps @ sub @ ss)"
    by simp
  with assms(2) have l: "length ps < length X"
    by (cases sub) (auto split: if_splits)
  have "(X @ butlast sub) ! length ps = X ! length ps"
    using l by (simp add: nth_append)
  moreover have "(ps @ sub @ ss) ! length ps = hd sub"
    using assms(2) by (cases sub) (simp_all add: nth_append)
  ultimately have "X ! length ps = hd sub"
    using e by simp
  moreover have "X ! length ps \<in> set X"
    using l by simp
  moreover have "hd sub \<in> set sub"
    using assms(2) by simp
  ultimately show False
    using assms(1) by auto
qed

lemma strip_think_absent: "\<not> sublist ''<think>'' x \<Longrightarrow> strip_think x = x"
proof (induction x)
  case Nil
  show ?case by simp
next
  case (Cons c cs)
  from Cons.prems have "\<not> prefix ''<think>'' (c # cs)" "\<not> sublist ''<think>'' cs"
    by (auto simp: sublist_Cons_right)
  with Cons.IH show ?case
    by (simp del: prefix_code)
qed

lemma strip_think_step:
  assumes "prefix ''<think>'' s" "find_in ''</think>'' (drop 7 s) 0 = int n"
  shows "strip_think s = strip_think (drop 8 (drop n (drop 7 s)))"
proof (cases s)
  case Nil
  with assms(1) show ?thesis by simp
next
  case (Cons c cs)
  have c: "prefix ''<think>'' (c # cs)" "find_in ''</think>'' (drop 7 (c # cs)) 0 \<noteq> - 1"
    using assms unfolding Cons by simp_all
  have "strip_think (c # cs) =
      strip_think (drop (7 + nat (find_in ''</think>'' (drop 7 (c # cs)) 0) + 8) (c # cs))"
    by (subst strip_think.simps(2)) (simp only: c if_True simp_thms)
  also have "drop (7 + nat (find_in ''</think>'' (drop 7 (c # cs)) 0) + 8) (c # cs) =
      drop 8 (drop n (drop 7 s))"
    using assms(2) unfolding Cons by (simp only: drop_drop nat_int) (simp only: ac_simps)
  finally show ?thesis
    unfolding Cons .
qed

lemma strip_think_block:
  assumes "\<not> sublist ''</think>'' T"
  shows "strip_think (''<think>'' @ T @ ''</think>'' @ R) = strip_think R"
proof -
  define opn where "opn = ''<think>''"
  define cls where "cls = ''</think>''"
  have "\<not> sublist cls (T @ butlast cls)"
    using assms unfolding cls_def by (rule no_border) simp_all
  then have f: "find_in cls (T @ cls @ R) 0 = int (length T)"
    using first_occurrence [of cls T R 0] by (simp add: cls_def)
  have p: "prefix opn (opn @ T @ cls @ R)"
    by simp
  have d: "drop 7 (opn @ T @ cls @ R) = T @ cls @ R"
    by (simp add: opn_def)
  have f': "find_in ''</think>'' (drop 7 (opn @ T @ cls @ R)) 0 = int (length T)"
    using f unfolding d by (simp only: cls_def)
  have "strip_think (opn @ T @ cls @ R) = strip_think (drop 8 (drop (length T) (drop 7 (opn @ T @ cls @ R))))"
    using p [unfolded opn_def] f' unfolding opn_def by (rule strip_think_step)
  also have "drop 8 (drop (length T) (drop 7 (opn @ T @ cls @ R))) = R"
    unfolding d by (simp add: cls_def)
  finally show ?thesis
    by (simp add: opn_def cls_def)
qed

lemma strip_append:
  assumes "F \<noteq> []" "\<not> isspace (hd F)" "\<not> isspace (last F)"
  shows "strip (P @ F) = lstrip P @ F"
proof -
  have l: "lstrip (P @ F) = lstrip P @ F"
    using assms(1,2) by (cases F) (auto simp: lstrip_def dropWhile_append)
  have "rstrip (X @ F) = X @ F" for X
    using assms(1,3) by (cases F rule: rev_cases) (auto simp: rstrip_def)
  with l show ?thesis
    by (simp add: strip_def)
qed

lemma strip_same:
  assumes "s \<noteq> []" "\<not> isspace (hd s)" "\<not> isspace (last s)"
  shows "strip s = s"
  using strip_append [OF assms, of "[]"] by (simp add: lstrip_def)

lemma strip_lines:
  assumes "s \<noteq> []" "\<not> isspace (hd s)" "\<not> isspace (last s)"
  shows "strip (''\<newline>'' @ s @ ''\<newline>'') = s"
proof -
  have l: "lstrip (''\<newline>'' @ s @ ''\<newline>'') = s @ ''\<newline>''"
    using assms(1,2) by (cases s) (auto simp: lstrip_def isspace_def)
  have "rstrip (s @ ''\<newline>'') = s"
    using assms(1,3) by (cases s rule: rev_cases) (auto simp: rstrip_def isspace_def)
  with l show ?thesis
    by (simp add: strip_def)
qed

lemma contains_absent: "\<not> sublist sub s \<Longrightarrow> \<not> contains sub s"
  by (simp add: contains_def py_find_def find_in_absent)

lemma py_find_first:
  "\<not> sublist sub (xs @ butlast sub) \<Longrightarrow> sub \<noteq> [] \<Longrightarrow>
   py_find (pre @ xs @ sub @ ys) sub (length pre) = int (length pre + length xs)"
  by (simp add: py_find_def first_occurrence)

lemma unfence_fenced:
  assumes Q: "\<not> sublist ''```json'' Q"
    and s: "s \<noteq> []" "\<not> isspace (hd s)" "\<not> isspace (last s)" "CHR 0x60 \<notin> set s"
  shows "unfence (Q @ fenced s) = s"
proof -
  define fj where "fj = ''```json''"
  define f3 where "f3 = ''```''"
  define body where "body = ''\<newline>'' @ s @ ''\<newline>''"
  define content where "content = Q @ fj @ body @ f3"
  have c: "Q @ fenced s = content"
    by (simp add: content_def fenced_def fj_def body_def f3_def)
  have "\<not> sublist fj (Q @ butlast fj)"
    using Q unfolding fj_def by (rule no_border) simp_all
  then have "py_find ([] @ Q @ fj @ body @ f3) fj (length ([] :: string)) = int (length ([] :: string) + length Q)"
    by (rule py_find_first) (simp add: fj_def)
  then have st: "py_find content fj 0 = int (length Q)"
    by (simp add: content_def)
  then have has: "contains fj content"
    by (simp add: contains_def)
  have "set f3 \<inter> set body = {}"
    using s(4) by (auto simp: f3_def body_def)
  then have "\<not> sublist f3 (body @ butlast f3)"
    by (rule disjoint_border) (simp add: f3_def)
  then have "py_find ((Q @ fj) @ body @ f3 @ []) f3 (length (Q @ fj)) = int (length (Q @ fj) + length body)"
    by (rule py_find_first) (simp add: f3_def)
  moreover have l: "length (Q @ fj) = length Q + 7"
    by (simp add: fj_def)
  ultimately have en: "py_find content f3 (length Q + 7) = int (length Q + 7 + length body)"
    by (simp only: content_def append_assoc append_Nil2)
  have "drop (length (Q @ fj)) ((Q @ fj) @ body @ f3) = body @ f3"
    by simp
  then have "drop (length Q + 7) content = body @ f3"
    by (simp only: l content_def append_assoc)
  then have sl: "slice content (length Q + 7) (int (length Q + 7 + length body)) = body"
    by (simp add: slice_def)
  have b: "int (length Q + 7) < int (length Q + 7 + length body)"
    by (simp add: body_def)
  have "unfence content = strip body"
    unfolding unfence_def fj_def [symmetric] f3_def [symmetric]
    by (simp only: has st en sl b Let_def if_True nat_int)
  also have "\<dots> = s"
    unfolding body_def using s(1-3) by (rule strip_lines)
  finally show ?thesis
    by (simp add: c)
qed

lemma unfence_absent: "CHR 0x60 \<notin> set s \<Longrightarrow> unfence s = s"
proof -
  assume a: "CHR 0x60 \<notin> set s"
  have "\<not> sublist ''```json'' s"
    by (rule absent_char [where c = "CHR 0x60"]) (simp_all add: a)
  moreover have "\<not> sublist ''```'' s"
    by (rule absent_char [where c = "CHR 0x60"]) (simp_all add: a)
  ultimately have "\<not> contains ''```json'' s" "\<not> contains ''```'' s"
    by (simp_all only: contains_absent not_False_eq_True)
  then show ?thesis
    by (simp only: unfence_def if_False)
qed

lemma seek_brace_same: "prefix ''{'' s \<Longrightarrow> seek_brace s = s"
  by (simp add: seek_brace_def)

lemma cut_at_match_same: "scan_depth s 0 0 = length s \<Longrightarrow> cut_at_match s = s"
  by (simp add: cut_at_match_def Let_def)

text \<open>
  The text handed to \<open>json.loads\<close> is the document itself when the reply is the wrapped
  document, or the bare document, and the braces of the document close at its end.
\<close>

lemma isolate_wrapped:
  assumes T: "\<not> sublist ''</think>'' T"
    and P: "\<not> sublist ''<think>'' P" "\<not> sublist ''```json'' P"
    and s: "prefix ''{'' s" "\<not> isspace (last s)" "CHR ''<'' \<notin> set s" "CHR 0x60 \<notin> set s"
      "scan_depth s 0 0 = length s"
  shows "isolate_json (wrapped T P s) = s"
proof -
  from s(1) have ne: "s \<noteq> []" and hd: "\<not> isspace (hd s)"
    by (auto simp: isspace_def prefix_def)
  have fne: "fenced s \<noteq> []" and fhd: "hd (fenced s) = CHR 0x60" and flast: "last (fenced s) = CHR 0x60"
    by (simp_all add: fenced_def)
  have "CHR ''<'' \<notin> set (fenced s)"
    using s(3) by (simp add: fenced_def)
  then have "\<not> sublist ''<think>'' (fenced s)"
    by (intro absent_char [where c = "CHR ''<''"]) simp_all
  with P(1) have "\<not> sublist ''<think>'' (P @ fenced s)"
    by (rule no_straddle) (simp_all add: fne fhd)
  then have "strip_think (P @ fenced s) = P @ fenced s"
    by (rule strip_think_absent)
  then have 1: "strip_think (wrapped T P s) = P @ fenced s"
    unfolding wrapped_def by (simp only: strip_think_block [OF T])
  have 2: "strip (P @ fenced s) = lstrip P @ fenced s"
    by (rule strip_append) (simp_all add: fne fhd flast isspace_def)
  have "sublist (lstrip P) P"
    unfolding lstrip_def by (intro suffix_imp_sublist suffix_dropWhile)
  with P(2) have "\<not> sublist ''```json'' (lstrip P)"
    using sublist_order.order_trans by blast
  then have 3: "unfence (lstrip P @ fenced s) = s"
    using ne hd s(2,4) by (rule unfence_fenced)
  show ?thesis
    by (simp only: isolate_json_def 1 2 3 seek_brace_same [OF s(1)] cut_at_match_same [OF s(5)])
qed

lemma isolate_bare:
  assumes s: "prefix ''{'' s" "\<not> isspace (last s)" "CHR ''<'' \<notin> set s" "CHR 0x60 \<notin> set s"
      "scan_depth s 0 0 = length s"
  shows "isolate_json s = s"
proof -
  from s(1) have ne: "s \<noteq> []" and hd: "\<not> isspace (hd s)"
    by (auto simp: isspace_def prefix_def)
  have "\<not> sublist ''<think>'' s"
    using s(3) by (intro absent_char [where c = "CHR ''<''"]) simp_all
  then have 1: "strip_think s = s"
    by (rule strip_think_absent)
  have 2: "strip s = s"
    using ne hd s(2) by (rule strip_same)
  show ?thesis
    by (simp only: isolate_json_def 1 2 unfence_absent [OF s(4)] seek_brace_same [OF s(1)]
        cut_at_match_same [OF s(5)])
qed

lemma hex_digit_no_mark: "hex_digit d \<notin> marks"
proof -
  have "d mod 16 < length ''0123456789abcdef''"
    by simp
  then have "''0123456789abcdef'' ! (d mod 16) \<in> set ''0123456789abcdef''"
    by (rule nth_mem)
  then show ?thesis
    unfolding hex_digit_def marks_def by auto
qed

lemma escape_u_no_mark: "set (escape_u n) \<inter> marks = {}"
  using hex_digit_no_mark by (auto simp: escape_u_def) (simp_all add: marks_def)

lemma escape_char_no_mark: "quiet c \<Longrightarrow> set (escape_char c) \<inter> marks = {}"
proof -
  assume q: "quiet c"
  consider "c < 32 \<or> c > 126" | "32 \<le> c" "c \<le> 126" by linarith
  then show ?thesis
  proof cases
    case 1
    have "set [CHR 0x5C, x] \<inter> marks = {}" if "x \<in> {CHR 0x22, CHR 0x5C, CHR ''n'', CHR ''r'', CHR ''t'', CHR ''b'', CHR ''f''}" for x
      using that by (auto simp: marks_def)
    with 1 escape_u_no_mark show ?thesis
      by (auto simp: escape_char_def)
  next
    case 2
    then have "c < 256" by simp
    from char_of_eq_numeral [OF this] q have "char_of c \<notin> marks"
      by (auto simp: marks_def quiet_def)
    moreover have "set [CHR 0x5C, x] \<inter> marks = {}" if "x \<in> {CHR 0x22, CHR 0x5C}" for x
      using that by (auto simp: marks_def)
    ultimately show ?thesis
      using 2 by (auto simp: escape_char_def)
  qed
qed

lemma encode_string_no_mark: "list_all quiet s \<Longrightarrow> set (encode_string s) \<inter> marks = {}"
  using escape_char_no_mark by (fastforce simp: encode_string_def list_all_iff marks_def)

lemma str_int_no_mark: "set (str_int i) \<inter> marks = {}"
proof -
  have "x \<notin> marks" if "x \<in> set (str_nat n)" for x n
    using str_nat_digits [OF that] by (auto simp: marks_def is_digit_def)
  then show ?thesis
    by (auto simp: str_int_def marks_def)
qed

lemma set_join: "set (join sep xs) \<subseteq> set sep \<union> \<Union> (set ` set xs)"
  by (induction sep xs rule: join.induct) auto

lemma in_join: "c \<in> set (join sep xs) \<Longrightarrow> c \<in> set sep \<or> (\<exists>x\<in>set xs. c \<in> set x)"
  using set_join [of sep xs] by auto

lemma json_dumps_no_mark:
  "inert j \<Longrightarrow> c \<in> set (json_dumps j) \<Longrightarrow> c \<noteq> CHR 0x60 \<and> c \<noteq> CHR ''<''"
proof (induction j)
  case JNull
  then show ?case by auto
next
  case (JBool b)
  then show ?case by (cases b) auto
next
  case (JInt i)
  with str_int_no_mark [of i] show ?case by (auto simp: marks_def)
next
  case (JFloat l)
  then show ?case by (auto simp: list_all_iff quiet_def)
next
  case (JString s)
  with encode_string_no_mark [of s] show ?case by (auto simp: marks_def)
next
  case (JArray vs)
  from JArray.prems(2) have "c = CHR ''['' \<or> c = CHR '']'' \<or> c \<in> set (join '', '' (map json_dumps vs))"
    by simp
  then consider "c = CHR ''[''" | "c = CHR '']''" | "c \<in> set '', ''"
    | v where "v \<in> set vs" "c \<in> set (json_dumps v)"
    using in_join [of c "'', ''" "map json_dumps vs"] by auto
  then show ?case
  proof cases
    case 4
    from 4(1) JArray.prems(1) have "inert v" by (simp add: list_all_iff)
    with JArray.IH [OF 4(1)] 4(2) show ?thesis by simp
  qed auto
next
  case (JObject kvs)
  let ?f = "\<lambda>(k, v). encode_string k @ '': '' @ json_dumps v"
  from JObject.prems(2) have "c = CHR ''{'' \<or> c = CHR ''}'' \<or> c \<in> set (join '', '' (map ?f kvs))"
    by simp
  then consider "c = CHR ''{''" | "c = CHR ''}''" | "c \<in> set '', ''"
    | x where "x \<in> set (map ?f kvs)" "c \<in> set x"
    using in_join [of c "'', ''" "map ?f kvs"] by blast
  then show ?case
  proof cases
    case 4
    from 4(1) obtain k v where kv: "(k, v) \<in> set kvs" and x: "x = encode_string k @ '': '' @ json_dumps v"
      by auto
    from kv JObject.prems(1) have q: "list_all quiet k" and i: "inert v"
      by (auto simp: list_all_iff)
    from 4(2) x consider "c \<in> set (encode_string k)" | "c \<in> set '': ''" | "c \<in> set (json_dumps v)"
      by auto
    then show ?thesis
    proof cases
      case 1
      with encode_string_no_mark [OF q] show ?thesis by (auto simp: marks_def)
    next
      case 2
      then show ?thesis by auto
    next
      case 3
      have "v \<in> Basic_BNFs.snds (k, v)" by simp
      from JObject.IH [OF kv this i 3] show ?thesis .
    qed
  qed auto
qed

lemma scan_depth_no_brace:
  "set x \<inter> {CHR ''{'', CHR ''}''} = {} \<Longrightarrow>
   scan_depth (x @ rest) d i = scan_depth rest d (i + length x)"
  by (induction x arbitrary: i) auto

lemma scan_depth_join:
  assumes "\<And>x r i. x \<in> set xs \<Longrightarrow> scan_depth (x @ r) d i = scan_depth r d (i + length x)"
    and "set sep \<inter> {CHR ''{'', CHR ''}''} = {}"
  shows "scan_depth (join sep xs @ r) d i = scan_depth r d (i + length (join sep xs))"
  using assms
proof (induction sep xs arbitrary: i rule: join.induct)
  case (1 sep)
  show ?case by simp
next
  case (2 sep x)
  then show ?case by simp
next
  case (3 sep x y ys)
  have "scan_depth (join sep (x # y # ys) @ r) d i = scan_depth (x @ (sep @ join sep (y # ys) @ r)) d i"
    by simp
  also have "\<dots> = scan_depth (sep @ join sep (y # ys) @ r) d (i + length x)"
    by (rule 3(2)) simp
  also have "\<dots> = scan_depth (join sep (y # ys) @ r) d (i + length x + length sep)"
    using 3(3) by (rule scan_depth_no_brace)
  also have "\<dots> = scan_depth r d (i + length x + length sep + length (join sep (y # ys)))"
    by (rule 3(1)) (simp_all add: 3(2,3))
  finally show ?case
    by (simp add: add.assoc)
qed

lemma scan_depth_members:
  assumes "\<And>kv r i. kv \<in> set kvs \<Longrightarrow>
      scan_depth (json_dumps (snd kv) @ r) d i = scan_depth r d (i + length (json_dumps (snd kv)))"
    and "list_all quiet (concat (map fst kvs))"
  shows "scan_depth (join '', '' (map (\<lambda>(k, v). encode_string k @ '': '' @ json_dumps v) kvs) @ r) d i =
         scan_depth r d (i + length (join '', '' (map (\<lambda>(k, v). encode_string k @ '': '' @ json_dumps v) kvs)))"
proof (rule scan_depth_join)
  fix x r i
  assume "x \<in> set (map (\<lambda>(k, v). encode_string k @ '': '' @ json_dumps v) kvs)"
  then obtain k v where kv: "(k, v) \<in> set kvs" and x: "x = encode_string k @ '': '' @ json_dumps v"
    by auto
  from kv assms(2) have "list_all quiet k"
    by (auto simp: list_all_iff)
  then have "set (encode_string k) \<inter> {CHR ''{'', CHR ''}''} = {}"
    using encode_string_no_mark [of k] by (auto simp: marks_def)
  then have "scan_depth (encode_string k @ ('': '' @ json_dumps v @ r)) d i =
      scan_depth ('': '' @ json_dumps v @ r) d (i + length (encode_string k))"
    by (rule scan_depth_no_brace)
  also have "\<dots> = scan_depth (json_dumps v @ r) d (i + length (encode_string k) + 2)"
    by simp
  also have "\<dots> = scan_depth r d (i + length (encode_string k) + 2 + length (json_dumps v))"
    using assms(1) [OF kv] by simp
  finally show "scan_depth (x @ r) d i = scan_depth r d (i + length x)"
    by (simp add: x add.assoc)
next
  show "set '', '' \<inter> {CHR ''{'', CHR ''}''} = {}"
    by simp
qed

lemma scan_depth_dumps:
  "inert j \<Longrightarrow> 1 \<le> d \<Longrightarrow>
   scan_depth (json_dumps j @ rest) d i = scan_depth rest d (i + length (json_dumps j))"
proof (induction j arbitrary: d rest i)
  case (JInt n)
  have "set (str_int n) \<inter> {CHR ''{'', CHR ''}''} = {}"
    using str_int_no_mark [of n] by (auto simp: marks_def)
  then show ?case
    by (simp add: scan_depth_no_brace)
next
  case (JFloat l)
  then have "set l \<inter> {CHR ''{'', CHR ''}''} = {}"
    by (auto simp: list_all_iff quiet_def)
  then show ?case
    by (simp add: scan_depth_no_brace)
next
  case (JString s)
  then have "set (encode_string s) \<inter> {CHR ''{'', CHR ''}''} = {}"
    using encode_string_no_mark [of s] by (auto simp: marks_def)
  then show ?case
    by (simp add: scan_depth_no_brace)
next
  case (JArray vs)
  let ?J = "join '', '' (map json_dumps vs)"
  have "scan_depth (?J @ r) d k = scan_depth r d (k + length ?J)" for r k
  proof (rule scan_depth_join)
    fix x r i
    assume "x \<in> set (map json_dumps vs)"
    then obtain v where v: "v \<in> set vs" "x = json_dumps v" by auto
    with JArray.prems have "inert v" by (simp add: list_all_iff)
    with JArray.IH [OF v(1)] JArray.prems(2) v(2)
    show "scan_depth (x @ r) d i = scan_depth r d (i + length x)"
      by simp
  qed simp
  then show ?case
    by simp
next
  case (JObject kvs)
  let ?M = "join '', '' (map (\<lambda>(k, v). encode_string k @ '': '' @ json_dumps v) kvs)"
  have "scan_depth (?M @ r) (d + 1) k = scan_depth r (d + 1) (k + length ?M)" for r k
  proof (rule scan_depth_members)
    fix kv r i
    assume kv: "kv \<in> set kvs"
    with JObject.prems have "inert (snd kv)" by (simp add: list_all_iff)
    moreover have "snd kv \<in> Basic_BNFs.snds kv" by (cases kv) simp
    ultimately show "scan_depth (json_dumps (snd kv) @ r) (d + 1) i =
        scan_depth r (d + 1) (i + length (json_dumps (snd kv)))"
      using JObject.IH [OF kv] JObject.prems(2) by simp
  next
    from JObject.prems show "list_all quiet (concat (map fst kvs))" by simp
  qed
  with JObject.prems(2) show ?case
    by simp
qed simp_all

text \<open>The depth scan of the written form of an inert object ends at its last character.\<close>

lemma scan_depth_object:
  assumes "inert (JObject kvs)"
  shows "scan_depth (json_dumps (JObject kvs)) 0 0 = length (json_dumps (JObject kvs))"
proof -
  let ?M = "join '', '' (map (\<lambda>(k, v). encode_string k @ '': '' @ json_dumps v) kvs)"
  have "scan_depth (?M @ r) 1 k = scan_depth r 1 (k + length ?M)" for r k
  proof (rule scan_depth_members)
    fix kv r i
    assume kv: "kv \<in> set kvs"
    with assms have "inert (snd kv)" by (simp add: list_all_iff)
    then show "scan_depth (json_dumps (snd kv) @ r) 1 i =
        scan_depth r 1 (i + length (json_dumps (snd kv)))"
      by (rule scan_depth_dumps) simp
  next
    from assms show "list_all quiet (concat (map fst kvs))" by simp
  qed
  then show ?thesis
    by simp
qed

lemma isolate_dumps_wrapped:
  assumes "inert (JObject kvs)"
    and "\<not> sublist ''</think>'' T" "\<not> sublist ''<think>'' P" "\<not> sublist ''```json'' P"
  shows "isolate_json (wrapped T P (json_dumps (JObject kvs))) = json_dumps (JObject kvs)"
  using assms(2-4)
proof (rule isolate_wrapped)
  from json_dumps_no_mark [OF assms(1)]
  show "CHR ''<'' \<notin> set (json_dumps (JObject kvs))" "CHR 0x60 \<notin> set (json_dumps (JObject kvs))"
    by blast+
  show "scan_depth (json_dumps (JObject kvs)) 0 0 = length (json_dumps (JObject kvs))"
    using assms(1) by (rule scan_depth_object)
qed (simp_all add: isspace_def)

lemma isolate_dumps_bare:
  assumes "inert (JObject kvs)"
  shows "isolate_json (json_dumps (JObject kvs)) = json_dumps (JObject kvs)"
proof (rule isolate_bare)
  from json_dumps_no_mark [OF assms(1)]
  show "CHR ''<'' \<notin> set (json_dumps (JObject kvs))" "CHR 0x60 \<notin> set (json_dumps (JObject kvs))"
    by blast+
  show "scan_depth (json_dumps (JObject kvs)) 0 0 = length (json_dumps (JObject kvs))"
    using assms(1) by (rule scan_depth_object)
qed (simp_all add: isspace_def)

lemma u_plain: "list_all (\<lambda>c. c < 256) (u s)"
  by (simp add: u_def list_all_iff)

lemma of_char_quiet: "c \<notin> marks \<Longrightarrow> quiet (of_char c)"
proof -
  assume a: "c \<notin> marks"
  have "of_char c \<noteq> (of_char d :: nat)" if "d \<in> marks" for d
    using that a by auto
  from this [of "CHR ''{''"] this [of "CHR ''}''"] this [of "CHR 0x60"] this [of "CHR ''<''"]
  show ?thesis
    by (simp add: quiet_def marks_def)
qed

lemma u_quiet: "calm s \<Longrightarrow> list_all quiet (u s)"
  by (simp add: calm_def u_def list_all_iff of_char_quiet)

lemma u_inj: "u a = u b \<Longrightarrow> a = b"
  by (simp add: u_def inj_map_eq_map inj_on_def)

lemma keys_improvement:
  "distinct (map u [''id'', ''file'', ''line_hint'', ''severity'', ''category'', ''title'',
     ''problem'', ''solution'', ''effort''])"
  by (simp add: u_def)

lemma keys_review:
  "distinct (map u [''improvements'', ''architecture_notes'', ''security_posture'',
     ''top_priority'', ''risk_score''])"
  by (simp add: u_def)

lemma improvement_json_plain: "plain (improvement_json item)"
  using keys_improvement
  by (cases "line_hint item") (simp_all add: improvement_json_def u_plain)

lemma calm_key: "list_all quiet (u ''id'')" "list_all quiet (u ''file'')"
  "list_all quiet (u ''line_hint'')" "list_all quiet (u ''severity'')"
  "list_all quiet (u ''category'')" "list_all quiet (u ''title'')"
  "list_all quiet (u ''problem'')" "list_all quiet (u ''solution'')"
  "list_all quiet (u ''effort'')" "list_all quiet (u ''improvements'')"
  "list_all quiet (u ''architecture_notes'')" "list_all quiet (u ''security_posture'')"
  "list_all quiet (u ''top_priority'')" "list_all quiet (u ''risk_score'')"
  by (simp_all add: u_def quiet_def)

lemma improvement_json_inert: "calm_improvement item \<Longrightarrow> inert (improvement_json item)"
  by (cases "line_hint item")
    (simp_all add: improvement_json_def calm_improvement_def calm_key u_quiet)

lemma improvements_plain: "list_all plain (map improvement_json items)"
  by (induction items) (simp_all add: improvement_json_plain)

lemma improvements_inert:
  "list_all calm_improvement items \<Longrightarrow> list_all inert (map improvement_json items)"
  by (induction items) (simp_all add: improvement_json_inert)

lemma review_json_plain: "plain (review_json r)"
  using keys_review
  by (simp add: review_json_def u_plain improvements_plain)

lemma review_json_inert: "calm_review r \<Longrightarrow> inert (review_json r)"
  by (simp add: review_json_def calm_review_def calm_key u_quiet improvements_inert)

lemma improvement_json_inj:
  assumes "improvement_json a = improvement_json b"
  shows "a = b"
proof -
  have k: "u ''line_hint'' \<noteq> u ''severity''"
    by (simp add: u_def)
  from assms k have "imp_id a = imp_id b \<and> imp_file a = imp_file b \<and> line_hint a = line_hint b \<and>
      severity a = severity b \<and> category a = category b \<and> title a = title b \<and>
      problem a = problem b \<and> solution a = solution b \<and> effort a = effort b"
    by (cases "line_hint a"; cases "line_hint b")
      (auto simp: improvement_json_def dest: u_inj)
  then show ?thesis
    by simp
qed

lemma review_json_inj:
  assumes "review_json a = review_json b"
  shows "a = b"
proof -
  from assms have "map improvement_json (improvements a) = map improvement_json (improvements b)"
    by (simp add: review_json_def)
  then have "improvements a = improvements b"
    by (rule map_injective) (auto simp: inj_on_def dest: improvement_json_inj)
  moreover from assms have "architecture_notes a = architecture_notes b"
    "security_posture a = security_posture b" "top_priority a = top_priority b"
    "risk_score a = risk_score b"
    by (auto simp: review_json_def dest: u_inj)
  ultimately show ?thesis
    by simp
qed

lemma set_strip_think: "set (strip_think x) \<subseteq> set x"
proof (induction x rule: strip_think.induct)
  case 1
  show ?case by simp
next
  case (2 c cs)
  show ?case
  proof (cases "prefix ''<think>'' (c # cs) \<and> find_in ''</think>'' (drop 7 (c # cs)) 0 \<noteq> - 1")
    case True
    then have "strip_think (c # cs) =
        strip_think (drop (7 + nat (find_in ''</think>'' (drop 7 (c # cs)) 0) + 8) (c # cs))"
      by (subst strip_think.simps(2)) (simp only: if_True simp_thms)
    moreover have "set (strip_think (drop (7 + nat (find_in ''</think>'' (drop 7 (c # cs)) 0) + 8) (c # cs)))
        \<subseteq> set (drop (7 + nat (find_in ''</think>'' (drop 7 (c # cs)) 0) + 8) (c # cs))"
      using True by (rule 2(1))
    ultimately show ?thesis
      using set_drop_subset [of "7 + nat (find_in ''</think>'' (drop 7 (c # cs)) 0) + 8" "c # cs"]
      by (simp only:)
  next
    case False
    then have "strip_think (c # cs) = c # strip_think cs"
      by (subst strip_think.simps(2)) (simp only: if_False)
    with 2(2) [OF False] show ?thesis
      by auto
  qed
qed

lemma set_strip: "set (strip x) \<subseteq> set x"
proof -
  have "set (rstrip y) \<subseteq> set y" for y
    unfolding rstrip_def using set_dropWhileD [of _ isspace "rev y"] by auto
  moreover have "set (lstrip x) \<subseteq> set x"
    unfolding lstrip_def using set_dropWhileD [of _ isspace x] by auto
  ultimately show ?thesis
    unfolding strip_def by blast
qed

lemma set_slice: "set (slice s a b) \<subseteq> set s"
  unfolding slice_def
  using set_take_subset [of "nat b - a" "drop a s"] set_drop_subset [of a s] by blast

lemma set_unfence: "set (unfence x) \<subseteq> set x"
proof -
  have "set (strip (slice x a b)) \<subseteq> set x" for a b
    using set_strip [of "slice x a b"] set_slice [of x a b] by blast
  then show ?thesis
    by (simp add: unfence_def Let_def del: prefix_code)
qed

text \<open>
  A reply without any opening brace: the search for the object changes nothing, and the text
  left by the first two steps is handed to \<open>json.loads\<close>.
\<close>

lemma isolate_no_brace:
  assumes "CHR ''{'' \<notin> set raw"
  shows "isolate_json raw = unfence (strip (strip_think raw))"
proof -
  let ?c = "unfence (strip (strip_think raw))"
  have "set ?c \<subseteq> set raw"
    using set_unfence [of "strip (strip_think raw)"] set_strip [of "strip_think raw"]
      set_strip_think [of raw] by blast
  with assms have n: "CHR ''{'' \<notin> set ?c"
    by blast
  then have p: "\<not> prefix ''{'' ?c"
    by (cases ?c) auto
  have "\<not> sublist ''{'' ?c"
    by (rule absent_char [where c = "CHR ''{''"]) (simp_all add: n)
  then have "py_find ?c ''{'' 0 = - 1"
    by (simp add: py_find_def find_in_absent)
  with p have "seek_brace ?c = ?c"
    by (simp only: seek_brace_def Let_def) simp
  with p show ?thesis
    by (simp only: isolate_json_def cut_at_match_def if_False)
qed

lemma extract_dumps_wrapped:
  assumes "plain (JObject kvs)" "inert (JObject kvs)"
    and "\<not> sublist ''</think>'' T" "\<not> sublist ''<think>'' P" "\<not> sublist ''```json'' P"
  shows "extract_json (wrapped T P (json_dumps (JObject kvs))) = Inr (JObject kvs)"
  unfolding extract_json_def isolate_dumps_wrapped [OF assms(2-5)]
  using assms(1) by (rule json_loads_dumps)

lemma extract_dumps_bare:
  assumes "plain (JObject kvs)" "inert (JObject kvs)"
  shows "extract_json (json_dumps (JObject kvs)) = Inr (JObject kvs)"
  unfolding extract_json_def isolate_dumps_bare [OF assms(2)]
  using assms(1) by (rule json_loads_dumps)

text \<open>
  Claim C1 (extractor round trip), for the reviews and replies that stay clear of what the
  isolation looks for. Let no text of the review hold a brace, a backtick or a less-than
  sign, let the reasoning hold no \<open></think>\<close>, and the prose neither \<open><think>\<close> nor a
  \<open>```json\<close> fence of its own. Then for the reply made of the think block, the prose and the
  serialized review inside a \<open>```json\<close> fence, the extraction returns the serialized review
  as parsed; and this value determines the review, so that the review read back is equal to
  the original.
\<close>

theorem extractor_round_trip:
  assumes "calm_review r"
    and "\<not> sublist ''</think>'' think"
    and "\<not> sublist ''<think>'' prose" and "\<not> sublist ''```json'' prose"
  shows "extract_json (wrapped think prose (json_dumps (review_json r))) = Inr (review_json r)
       \<and> (\<forall>r'. review_json r' = review_json r \<longrightarrow> r' = r)"
proof -
  obtain kvs where k: "review_json r = JObject kvs"
    by (simp add: review_json_def)
  have "plain (JObject kvs)" "inert (JObject kvs)"
    using review_json_plain [of r] review_json_inert [OF assms(1)] by (simp_all only: k)
  then have "extract_json (wrapped think prose (json_dumps (JObject kvs))) = Inr (JObject kvs)"
    using assms(2-4) by (rule extract_dumps_wrapped)
  then show ?thesis
    using review_json_inj by (auto simp only: k [symmetric])
qed

theorem extractor_round_trip_witness:
  "calm_review sample_review
   \<and> \<not> sublist ''</think>'' ''plan''
   \<and> \<not> sublist ''<think>'' ''Here is the review: ''
   \<and> \<not> sublist ''```json'' ''Here is the review: ''
   \<and> extract_json (wrapped ''plan'' ''Here is the review: '' (json_dumps (review_json sample_review)))
       = Inr (review_json sample_review)"
proof -
  have a: "calm_review sample_review"
    by code_simp
  have b: "\<not> sublist ''</think>'' ''plan''"
    by code_simp
  have c: "\<not> sublist ''<think>'' ''Here is the review: ''"
    by code_simp
  have d: "\<not> sublist ''```json'' ''Here is the review: ''"
    by code_simp
  from extractor_round_trip [OF a b c d] a b c d show ?thesis
    by blast
qed

text \<open>
  Claim C1 as stated fails. A well-formed review with a closing brace in \<open>top_priority\<close> is
  not read back: the depth scan counts the brace inside the text and cuts the object there.
  Nor is the prose arbitrary: prose that mentions a \<open>```json\<close> fence makes the extractor take
  the text after that mention for the interior of the fence.
\<close>

theorem round_trip_fails_on_brace_or_fence:
  "extract_json (wrapped ''plan'' ''Here: '' (json_dumps (review_json brace_review)))
     = Inl JSONDecodeError
   \<and> extract_json (wrapped ''plan'' ''See the ```json block: '' (json_dumps (review_json terse_review)))
     = Inl JSONDecodeError"
  by code_simp

text \<open>
  Claim C2 (rejection and validation) as the code has it: the extraction validates nothing.
  Every JSON object whose texts hold none of the characters of the isolation is returned as
  parsed, whatever its keys and values; and a reply without any opening brace is not rejected
  for the want of an object: the text left by the removal of the think blocks and the
  unwrapping of the fence is handed to \<open>json.loads\<close>, whose verdict is the result.
\<close>

theorem extraction_validates_nothing:
  assumes "plain (JObject kvs)" and "inert (JObject kvs)" and "CHR ''{'' \<notin> set raw"
  shows "extract_json (json_dumps (JObject kvs)) = Inr (JObject kvs)
       \<and> extract_json raw = json_loads (unfence (strip (strip_think raw)))"
  using extract_dumps_bare [OF assms(1,2)] isolate_no_brace [OF assms(3)]
  by (simp add: extract_json_def)

theorem extraction_validates_nothing_witness:
  "plain urgent_json \<and> inert urgent_json \<and> CHR ''{'' \<notin> set ''[1, 2]''
   \<and> extract_json (json_dumps urgent_json) = Inr urgent_json
   \<and> extract_json ''[1, 2]'' = json_loads (unfence (strip (strip_think ''[1, 2]'')))"
proof -
  have a: "plain urgent_json"
    by code_simp
  have b: "inert urgent_json"
    by code_simp
  have c: "CHR ''{'' \<notin> set ''[1, 2]''"
    by simp
  from extraction_validates_nothing [OF a [unfolded urgent_json_def] b [unfolded urgent_json_def] c]
  show ?thesis
    using a b c by (simp only: urgent_json_def) blast
qed

text \<open>
  Claim C2 as stated fails. A reply with the severity \<open>urgent\<close>, a risk score of 150 and the
  other required fields missing is returned as parsed, and so is the empty object; the reply
  \<open>[]\<close>, in which no object can be located, is returned as an empty list.
\<close>

theorem invalid_replies_are_returned:
  "extract_json urgent_reply = Inr urgent_json
   \<and> extract_json ''{}'' = Inr (JObject [])
   \<and> extract_json ''[]'' = Inr (JArray [])"
  by code_simp

end
